theory Spec2Isabelle
  imports Main
begin

section \<open>rpy-tools: the screenplay converter and the script indexer\<close>

text \<open>
  A shallow embedding of \<^verbatim>\<open>rpy_generator.py\<close> and \<^verbatim>\<open>rpy_indexer.py\<close>.

  A Python \<^verbatim>\<open>str\<close> is a \<^typ>\<open>string\<close>: a list of characters, each read as the
  Unicode code point of its number (0 to 255, the Latin-1 range). Code points above 255
  are outside the model. An \<^verbatim>\<open>Optional[str]\<close> is a \<^typ>\<open>string option\<close>; Python's
  truth test on it (\<^verbatim>\<open>if label:\<close>) is \<open>truthy\<close>. A text sink (\<^verbatim>\<open>TextIOWrapper\<close>
  opened for writing) is the text written to it so far, and every writer returns the
  sink it was given with its output appended.
\<close>

subsection \<open>Python's string operations\<close>

text \<open>\<^verbatim>\<open>str.isspace\<close> on one character, for code points below 256.\<close>

definition isspace :: "char \<Rightarrow> bool" where
  "isspace c =
     (c \<in> set [CHR 0x09, CHR 0x0A, CHR 0x0B, CHR 0x0C, CHR 0x0D,
                CHR 0x1C, CHR 0x1D, CHR 0x1E, CHR 0x1F, CHR 0x20, CHR 0x85, CHR 0xA0])"

text \<open>\<^verbatim>\<open>str.isdigit\<close> on one character, for code points below 256: the decimal digits
  and the superscripts two, three and one.\<close>

definition isdigit :: "char \<Rightarrow> bool" where
  "isdigit c = (c \<in> set (''0123456789'' @ [CHR 0xB2, CHR 0xB3, CHR 0xB9]))"

definition str_lstrip :: "string \<Rightarrow> string" where
  "str_lstrip s = dropWhile isspace s"

definition str_rstrip :: "string \<Rightarrow> string" where
  "str_rstrip s = rev (dropWhile isspace (rev s))"

definition str_strip :: "string \<Rightarrow> string" where
  "str_strip s = str_lstrip (str_rstrip s)"

text \<open>\<^verbatim>\<open>s.lstrip(chars)\<close> for a one-character \<^verbatim>\<open>chars\<close>.\<close>

definition str_lstrip_char :: "char \<Rightarrow> string \<Rightarrow> string" where
  "str_lstrip_char c s = dropWhile (\<lambda>x. x = c) s"

text \<open>\<^verbatim>\<open>s.replace(old, new)\<close> for one-character \<^verbatim>\<open>old\<close> and \<^verbatim>\<open>new\<close>.\<close>

definition str_replace_char :: "char \<Rightarrow> char \<Rightarrow> string \<Rightarrow> string" where
  "str_replace_char old new s = map (\<lambda>x. if x = old then new else x) s"

text \<open>\<^verbatim>\<open>s.find(c)\<close> for a one-character \<^verbatim>\<open>c\<close>: the first index, or -1.\<close>

fun str_find :: "string \<Rightarrow> char \<Rightarrow> int" where
  "str_find [] c = - 1"
| "str_find (x # xs) c =
     (if x = c then 0
      else (let r = str_find xs c in if r < 0 then - 1 else r + 1))"

text \<open>\<^verbatim>\<open>str(n)\<close> for an integer: its decimal digits, with a minus sign when negative.\<close>

fun str_nat :: "nat \<Rightarrow> string" where
  "str_nat n =
     (if n < 10 then [''0123456789'' ! n]
      else str_nat (n div 10) @ [''0123456789'' ! (n mod 10)])"

declare str_nat.simps [simp del]

definition str_int :: "int \<Rightarrow> string" where
  "str_int i = (if i < 0 then ''-'' @ str_nat (nat (- i)) else str_nat (nat i))"

text \<open>Python's truth test on an \<^verbatim>\<open>Optional[str]\<close>: neither \<^verbatim>\<open>None\<close> nor empty.\<close>

fun truthy :: "string option \<Rightarrow> bool" where
  "truthy None = False"
| "truthy (Some s) = (s \<noteq> [])"

subsection \<open>Constants\<close>

definition LABEL :: string where
  "LABEL = ''label''"

definition TAB :: string where
  "TAB = ''    ''"

definition COLON :: char where
  "COLON = CHR '':''"

definition ELLIPSIS :: string where
  "ELLIPSIS = ''...''"

definition MAX_LABELS_PER_MENU :: int where
  "MAX_LABELS_PER_MENU = 20"

subsection \<open>Label normalisation\<close>

text \<open>
  \<^verbatim>\<open>normalize_label(label, default_label)\<close> of the generator. The clock read by
  \<^verbatim>\<open>current_time_millis()\<close> is the parameter \<open>now\<close>.
\<close>

definition normalize_label :: "string option \<Rightarrow> string option \<Rightarrow> int \<Rightarrow> string" where
  "normalize_label label default_label now =
     (let label1 = (if truthy label then map_option str_strip label else label) in
      if \<not> truthy label1 then
        (if truthy default_label then the default_label
         else LABEL @ ''_'' @ str_int now)
      else
        (let label2 = str_replace_char (CHR '' '') (CHR ''_'') (the label1);
             label3 = str_replace_char COLON (CHR ''_'') label2
         in if isdigit (hd label3) then LABEL @ ''_'' @ label3 else label3))"

text \<open>The indexer's own copy of \<^verbatim>\<open>normalize_label\<close>, with the colon written in place.\<close>

definition indexer_normalize_label :: "string option \<Rightarrow> string option \<Rightarrow> int \<Rightarrow> string" where
  "indexer_normalize_label label default_label now =
     (let label1 = (if truthy label then map_option str_strip label else label) in
      if \<not> truthy label1 then
        (if truthy default_label then the default_label
         else LABEL @ ''_'' @ str_int now)
      else
        (let label2 = str_replace_char (CHR '' '') (CHR ''_'') (the label1);
             label3 = str_replace_char (CHR '':'') (CHR ''_'') label2
         in if isdigit (hd label3) then LABEL @ ''_'' @ label3 else label3))"

subsection \<open>The speaker-line parser\<close>

record ScriptLine =
  character_name :: "string option"
  phrase :: string

definition parse_text_line :: "string \<Rightarrow> ScriptLine option" where
  "parse_text_line line0 =
     (if line0 = [] then None
      else
        (let line = str_strip line0 in
         if line = [] then None
         else
           (let colon_index = str_find line COLON in
            if colon_index < 1 then
              (let line' = str_lstrip_char COLON line in
               if line' \<noteq> [] then Some \<lparr>character_name = None, phrase = line'\<rparr>
               else None)
            else
              (let line_length = int (length line);
                   name = str_rstrip (take (nat colon_index) line)
               in
               if colon_index = line_length - 1 then
                 Some \<lparr>character_name = (if name \<noteq> [] then Some name else None),
                       phrase = ELLIPSIS\<rparr>
               else
                 (let phrase' = str_strip (drop (nat (colon_index + 1)) line) in
                  if name = [] \<and> phrase' = [] then None
                  else
                    Some \<lparr>character_name = (if name \<noteq> [] then Some name else None),
                          phrase = (if phrase' \<noteq> [] then phrase' else ELLIPSIS)\<rparr>)))))"

subsection \<open>The per-file writer and the character map\<close>

text \<open>
  The character map is a Python \<^verbatim>\<open>dict\<close>, which keeps its keys in insertion order: an
  association list with distinct keys, the newest entry last. \<^verbatim>\<open>len\<close> is \<open>length\<close>
  and \<^verbatim>\<open>dict.setdefault(k, d)\<close> returns the stored value, or stores and returns \<open>d\<close>.
\<close>

type_synonym character_map = "(string \<times> string) list"

definition dict_setdefault ::
  "character_map \<Rightarrow> string \<Rightarrow> string \<Rightarrow> string \<times> character_map" where
  "dict_setdefault m k d =
     (case map_of m k of Some v \<Rightarrow> (v, m) | None \<Rightarrow> (d, m @ [(k, d)]))"

definition NL :: string where
  "NL = [CHR 0x0A]"

definition DQUOTE :: string where
  "DQUOTE = [CHR 0x22]"

text \<open>\<^verbatim>\<open>script_file.write(s)\<close>: the sink with \<open>s\<close> appended.\<close>

definition file_write :: "string \<Rightarrow> string \<Rightarrow> string" where
  "file_write f s = f @ s"

text \<open>
  The loop of \<^verbatim>\<open>write_lines_to_script_file\<close> over the parsed lines, threading the sink,
  the character map and \<^verbatim>\<open>lines_count\<close>. A line that is \<^verbatim>\<open>None\<close> is skipped.
\<close>

fun write_lines_loop ::
  "string \<Rightarrow> ScriptLine option list \<Rightarrow> character_map \<Rightarrow> nat \<Rightarrow> string \<times> character_map \<times> nat" where
  "write_lines_loop f [] m lines_count = (f, m, lines_count)"
| "write_lines_loop f (None # rest) m lines_count = write_lines_loop f rest m lines_count"
| "write_lines_loop f (Some line # rest) m lines_count =
     (let (character_id, m') =
            (if truthy (character_name line)
             then (case dict_setdefault m (the (character_name line))
                          (''ch_'' @ str_nat (length m)) of
                     (v, m1) \<Rightarrow> (Some v, m1))
             else (None, m));
          script_line =
            (if truthy character_id
             then the character_id @ '' '' @ DQUOTE @ phrase line @ DQUOTE
             else DQUOTE @ phrase line @ DQUOTE)
      in write_lines_loop (file_write f (TAB @ script_line @ NL)) rest m' (lines_count + 1))"

definition write_lines_to_script_file ::
  "string \<Rightarrow> ScriptLine option list \<Rightarrow> character_map \<Rightarrow> string \<times> character_map \<times> nat" where
  "write_lines_to_script_file script_file lines_generator m =
     (if lines_generator = [] then (script_file, m, 0)
      else write_lines_loop script_file lines_generator m 0)"

subsection \<open>The menu builder of the generator\<close>

text \<open>The loop of \<^verbatim>\<open>write_jump_menu_to_script_file\<close> over the labels: two writes each.\<close>

fun write_jump_entries :: "string \<Rightarrow> string list \<Rightarrow> string" where
  "write_jump_entries f [] = f"
| "write_jump_entries f (label # labels) =
     write_jump_entries
       (file_write
          (file_write f (TAB @ TAB @ DQUOTE @ label @ DQUOTE @ '':'' @ NL))
          (TAB @ TAB @ TAB @ ''jump '' @ label @ NL @ NL))
       labels"

definition write_jump_menu_to_script_file ::
  "string \<Rightarrow> string \<Rightarrow> string list \<Rightarrow> string option \<Rightarrow> string" where
  "write_jump_menu_to_script_file script_file top_label labels go_back_label =
     (let f1 = file_write script_file (LABEL @ '' '' @ top_label @ '':'' @ NL @ NL) in
      if \<not> truthy go_back_label \<and> labels = [] then file_write f1 (TAB @ ''pass'' @ NL)
      else
        (let f2 = file_write f1 (TAB @ ''menu:'' @ NL);
             f3 = (if truthy go_back_label
                   then file_write
                          (file_write f2 (TAB @ TAB @ DQUOTE @ ''< BACK'' @ DQUOTE @ '':'' @ NL))
                          (TAB @ TAB @ TAB @ ''jump '' @ the go_back_label @ NL @ NL)
                   else f2)
         in if labels = [] then f3 else write_jump_entries f3 labels))"

text \<open>\<^verbatim>\<open>labels[i:j]\<close> for \<open>0 \<le> i\<close> and \<open>0 \<le> j\<close>.\<close>

definition slice :: "'a list \<Rightarrow> nat \<Rightarrow> nat \<Rightarrow> 'a list" where
  "slice xs i j = take (j - i) (drop i xs)"

text \<open>
  \<^verbatim>\<open>for i in range(i, labels_count, batch_size): yield labels[i : min(i + batch_size, labels_count)]\<close>,
  the batches collected in the order they are yielded. \<^verbatim>\<open>batch_labels\<close> returns before the
  loop when the step is not positive, so the loop is only entered with a positive step.
\<close>

function batch_labels_loop :: "'a list \<Rightarrow> nat \<Rightarrow> nat \<Rightarrow> 'a list list" where
  "batch_labels_loop labels batch_size i =
     (if batch_size = 0 \<or> length labels \<le> i then []
      else slice labels i (min (i + batch_size) (length labels))
             # batch_labels_loop labels batch_size (i + batch_size))"
  by pat_completeness auto
termination
  by (relation "measure (\<lambda>(labels, batch_size, i). length labels - i)") auto

declare batch_labels_loop.simps [simp del]

definition batch_labels :: "'a list \<Rightarrow> int \<Rightarrow> 'a list list" where
  "batch_labels labels batch_size =
     (if batch_size = 0 \<or> batch_size < 1 then []
      else if labels = [] then []
      else batch_labels_loop labels (nat batch_size) 0)"

text \<open>
  The sub-menu loop of \<^verbatim>\<open>write_labels_to_script_file\<close> over the batches, threading the
  sink, \<^verbatim>\<open>batch_number\<close> and \<^verbatim>\<open>batch_top_labels\<close>.
\<close>

fun write_submenus ::
  "string \<Rightarrow> string \<Rightarrow> string list list \<Rightarrow> nat \<Rightarrow> string list \<Rightarrow> string \<times> nat \<times> string list" where
  "write_submenus f root_label [] batch_number batch_top_labels =
     (f, batch_number, batch_top_labels)"
| "write_submenus f root_label (labels_batch # rest) batch_number batch_top_labels =
     (let top_label = root_label @ ''_'' @ str_nat batch_number in
      write_submenus
        (write_jump_menu_to_script_file f top_label labels_batch (Some root_label))
        root_label rest (batch_number + 1) (batch_top_labels @ [top_label]))"

definition write_labels_to_script_file ::
  "string \<Rightarrow> string list \<Rightarrow> string \<Rightarrow> int \<Rightarrow> string" where
  "write_labels_to_script_file script_file labels root_label label_page_size0 =
     (let label_page_size =
            (if label_page_size0 = 0 \<or> label_page_size0 < 1 then MAX_LABELS_PER_MENU
             else label_page_size0)
      in
      if labels = [] \<or> int (length labels) \<le> label_page_size then
        write_jump_menu_to_script_file script_file root_label labels None
      else
        (case write_submenus script_file root_label (batch_labels labels label_page_size) 0 [] of
           (f1, batch_number, batch_top_labels) \<Rightarrow>
             write_jump_menu_to_script_file f1 root_label batch_top_labels None))"

subsection \<open>The menu builder of the indexer\<close>

text \<open>The indexer's own copies of the same functions, translated from \<^verbatim>\<open>rpy_indexer.py\<close>.\<close>

fun indexer_write_jump_entries :: "string \<Rightarrow> string list \<Rightarrow> string" where
  "indexer_write_jump_entries f [] = f"
| "indexer_write_jump_entries f (label # labels) =
     indexer_write_jump_entries
       (file_write
          (file_write f (TAB @ TAB @ DQUOTE @ label @ DQUOTE @ '':'' @ NL))
          (TAB @ TAB @ TAB @ ''jump '' @ label @ NL @ NL))
       labels"

definition write_jump_menu_to_file ::
  "string \<Rightarrow> string \<Rightarrow> string list \<Rightarrow> string option \<Rightarrow> string" where
  "write_jump_menu_to_file index_file top_label labels go_back_label =
     (let f1 = file_write index_file (LABEL @ '' '' @ top_label @ '':'' @ NL @ NL) in
      if \<not> truthy go_back_label \<and> labels = [] then file_write f1 (TAB @ ''pass'' @ NL)
      else
        (let f2 = file_write f1 (TAB @ ''menu:'' @ NL);
             f3 = (if truthy go_back_label
                   then file_write
                          (file_write f2 (TAB @ TAB @ DQUOTE @ ''< BACK'' @ DQUOTE @ '':'' @ NL))
                          (TAB @ TAB @ TAB @ ''jump '' @ the go_back_label @ NL @ NL)
                   else f2)
         in if labels = [] then f3 else indexer_write_jump_entries f3 labels))"

function indexer_batch_labels_loop :: "'a list \<Rightarrow> nat \<Rightarrow> nat \<Rightarrow> 'a list list" where
  "indexer_batch_labels_loop labels batch_size i =
     (if batch_size = 0 \<or> length labels \<le> i then []
      else slice labels i (min (i + batch_size) (length labels))
             # indexer_batch_labels_loop labels batch_size (i + batch_size))"
  by pat_completeness auto
termination
  by (relation "measure (\<lambda>(labels, batch_size, i). length labels - i)") auto

declare indexer_batch_labels_loop.simps [simp del]

definition indexer_batch_labels :: "'a list \<Rightarrow> int \<Rightarrow> 'a list list" where
  "indexer_batch_labels labels batch_size =
     (if batch_size = 0 \<or> batch_size < 1 then []
      else if labels = [] then []
      else indexer_batch_labels_loop labels (nat batch_size) 0)"

fun indexer_write_submenus ::
  "string \<Rightarrow> string \<Rightarrow> string list list \<Rightarrow> nat \<Rightarrow> string list \<Rightarrow> string \<times> nat \<times> string list" where
  "indexer_write_submenus f root_label [] batch_number batch_top_labels =
     (f, batch_number, batch_top_labels)"
| "indexer_write_submenus f root_label (labels_batch # rest) batch_number batch_top_labels =
     (let top_label = root_label @ ''_'' @ str_nat batch_number in
      indexer_write_submenus
        (write_jump_menu_to_file f top_label labels_batch (Some root_label))
        root_label rest (batch_number + 1) (batch_top_labels @ [top_label]))"

definition write_labels_to_file_in_batches ::
  "string \<Rightarrow> string \<Rightarrow> string list \<Rightarrow> string option \<Rightarrow> int \<Rightarrow> string" where
  "write_labels_to_file_in_batches index_file root_label labels go_back_label label_page_size0 =
     (let label_page_size =
            (if label_page_size0 = 0 \<or> label_page_size0 < 1 then MAX_LABELS_PER_MENU
             else label_page_size0)
      in
      if labels = [] \<or> int (length labels) \<le> label_page_size then
        write_jump_menu_to_file index_file root_label labels go_back_label
      else
        (case indexer_write_submenus index_file root_label
                (indexer_batch_labels labels label_page_size) 0 [] of
           (f1, batch_number, batch_top_labels) \<Rightarrow>
             write_jump_menu_to_file f1 root_label batch_top_labels go_back_label))"

subsection \<open>Notions used to state the properties\<close>

text \<open>The text \<^verbatim>\<open>normalize_label\<close> works on after trimming: empty for \<^verbatim>\<open>None\<close>.\<close>

definition trimmed_text :: "string option \<Rightarrow> string" where
  "trimmed_text label = (case label of None \<Rightarrow> [] | Some s \<Rightarrow> str_strip s)"

text \<open>The replacement step of \<^verbatim>\<open>normalize_label\<close>: spaces, then colons, to underscores.\<close>

definition replaced :: "string \<Rightarrow> string" where
  "replaced t = str_replace_char COLON (CHR ''_'') (str_replace_char (CHR '' '') (CHR ''_'') t)"

text \<open>A label is normalised: non-empty, without spaces and colons, not starting with a
  digit, and without surrounding whitespace.\<close>

definition normalized :: "string \<Rightarrow> bool" where
  "normalized l =
     (l \<noteq> [] \<and> CHR '' '' \<notin> set l \<and> CHR '':'' \<notin> set l \<and> \<not> isdigit (hd l)
      \<and> \<not> isspace (hd l) \<and> \<not> isspace (last l))"

text \<open>
  A menu page is one call of the jump-menu writer: its top label, its labels and its
  go-back label. \<open>emit_pages\<close> writes a list of pages in order.
\<close>

fun emit_pages :: "string \<Rightarrow> (string \<times> string list \<times> string option) list \<Rightarrow> string" where
  "emit_pages f [] = f"
| "emit_pages f ((top_label, labels, go_back_label) # pages) =
     emit_pages (write_jump_menu_to_script_file f top_label labels go_back_label) pages"

text \<open>The label of sub-page \<open>i\<close>, the \<open>i\<close>-th chunk of \<open>p\<close> labels, and the number of
  chunks \<open>\<lceil>n / p\<rceil>\<close>.\<close>

definition sub_page_label :: "string \<Rightarrow> nat \<Rightarrow> string" where
  "sub_page_label root_label i = root_label @ ''_'' @ str_nat i"

definition chunk :: "'a list \<Rightarrow> nat \<Rightarrow> nat \<Rightarrow> 'a list" where
  "chunk labels p i = take p (drop (i * p) labels)"

definition page_count :: "nat \<Rightarrow> nat \<Rightarrow> nat" where
  "page_count n p = (n + p - 1) div p"

text \<open>The two lines of one menu entry, and of the back entry.\<close>

definition entry_text :: "string \<Rightarrow> string" where
  "entry_text label =
     ''        '' @ DQUOTE @ label @ DQUOTE @ '':'' @ NL @ ''            jump '' @ label @ NL @ NL"

definition back_entry_text :: "string \<Rightarrow> string" where
  "back_entry_text go_back_label =
     ''        '' @ DQUOTE @ ''< BACK'' @ DQUOTE @ '':'' @ NL
       @ ''            jump '' @ go_back_label @ NL @ NL"

text \<open>
  The text of one menu page, written out: the label line and a blank line, then either
  the single statement \<^verbatim>\<open>pass\<close> (no go-back label and no labels), or the \<^verbatim>\<open>menu:\<close> line,
  the back entry when there is a go-back label, and one entry per label in order.
\<close>

definition page_text :: "string \<Rightarrow> string list \<Rightarrow> string option \<Rightarrow> string" where
  "page_text top_label labels go_back_label =
     ''label '' @ top_label @ '':'' @ NL @ NL
       @ (if \<not> truthy go_back_label \<and> labels = [] then ''    pass'' @ NL
          else ''    menu:'' @ NL
                 @ (if truthy go_back_label then back_entry_text (the go_back_label) else [])
                 @ concat (map entry_text labels))"

text \<open>The speaker names the writer looks up, in line order, and the distinct elements
  of a list in the order of their first occurrence.\<close>

fun speakers :: "ScriptLine option list \<Rightarrow> string list" where
  "speakers [] = []"
| "speakers (None # rest) = speakers rest"
| "speakers (Some line # rest) =
     (if truthy (character_name line) then the (character_name line) # speakers rest
      else speakers rest)"

fun first_seen :: "'a list \<Rightarrow> 'a list" where
  "first_seen [] = []"
| "first_seen (x # xs) = x # first_seen (filter (\<lambda>y. y \<noteq> x) xs)"

text \<open>
  The speakers of a run that are not yet in the character map \<open>m\<close>, in the order of
  their first line, and the map after the run: \<open>m\<close> followed by one entry per new
  speaker, the \<open>i\<close>-th new speaker getting the identifier \<^verbatim>\<open>ch_\<close> and the number
  \<open>length m + i\<close>.
\<close>

definition new_speakers :: "character_map \<Rightarrow> ScriptLine option list \<Rightarrow> string list" where
  "new_speakers m lines = first_seen (filter (\<lambda>n. map_of m n = None) (speakers lines))"

definition assigned_map :: "character_map \<Rightarrow> ScriptLine option list \<Rightarrow> character_map" where
  "assigned_map m lines =
     m @ zip (new_speakers m lines)
            (map (\<lambda>i. ''ch_'' @ str_nat (length m + i)) [0..<length (new_speakers m lines)])"

text \<open>The statement written for one line when the speaker's identifier is read from the
  character map \<open>m\<close>.\<close>

definition line_text :: "character_map \<Rightarrow> ScriptLine option \<Rightarrow> string" where
  "line_text m l =
     (case l of
        None \<Rightarrow> []
      | Some line \<Rightarrow>
          (let character_id =
                 (if truthy (character_name line) then map_of m (the (character_name line))
                  else None)
           in if truthy character_id
              then ''    '' @ the character_id @ '' '' @ DQUOTE @ phrase line @ DQUOTE @ NL
              else ''    '' @ DQUOTE @ phrase line @ DQUOTE @ NL))"

section \<open>Properties\<close>

subsection \<open>The speaker-line parser\<close>

lemma str_strip_all_space: "\<forall>c\<in>set s. isspace c \<Longrightarrow> str_strip s = []"
proof -
  assume a: "\<forall>c\<in>set s. isspace c"
  have "\<forall>c\<in>set (rev s). isspace c"
    using a by simp
  then have h: "dropWhile isspace (rev s) = []"
    by (rule dropWhile_eq_Nil_conv [THEN iffD2])
  show ?thesis
    by (simp only: str_strip_def str_lstrip_def str_rstrip_def h rev.simps dropWhile.simps)
qed

text \<open>
  Claim C5. \<^verbatim>\<open>parse_text_line\<close> on the spec's examples: \<^verbatim>\<open>"Alice: Hello"\<close> gives speaker
  Alice and phrase Hello; \<^verbatim>\<open>"Alice:"\<close> gives speaker Alice and the ellipsis placeholder
  (three dots); \<^verbatim>\<open>":Hello"\<close> gives no speaker and phrase Hello; the empty line and every
  line made of whitespace only give no record.
\<close>

theorem parse_text_line_examples:
  "parse_text_line ''Alice: Hello'' = Some \<lparr>character_name = Some ''Alice'', phrase = ''Hello''\<rparr>
   \<and> parse_text_line ''Alice:'' = Some \<lparr>character_name = Some ''Alice'', phrase = ELLIPSIS\<rparr>
   \<and> ELLIPSIS = ''...''
   \<and> parse_text_line '':Hello'' = Some \<lparr>character_name = None, phrase = ''Hello''\<rparr>
   \<and> parse_text_line '''' = None
   \<and> (\<forall>line. (\<forall>c\<in>set line. isspace c) \<longrightarrow> parse_text_line line = None)"
proof (intro conjI allI impI)
  show "parse_text_line ''Alice: Hello'' = Some \<lparr>character_name = Some ''Alice'', phrase = ''Hello''\<rparr>"
    by code_simp
  show "parse_text_line ''Alice:'' = Some \<lparr>character_name = Some ''Alice'', phrase = ELLIPSIS\<rparr>"
    by code_simp
  show "ELLIPSIS = ''...''"
    by (simp add: ELLIPSIS_def)
  show "parse_text_line '':Hello'' = Some \<lparr>character_name = None, phrase = ''Hello''\<rparr>"
    by code_simp
  show "parse_text_line '''' = None"
    by (simp add: parse_text_line_def)
next
  fix line assume "\<forall>c\<in>set line. isspace c"
  then show "parse_text_line line = None"
    by (simp add: parse_text_line_def str_strip_all_space)
qed

text \<open>The whitespace-only case at a line of a space, a tab, a space and a newline.\<close>

theorem parse_text_line_examples_witness:
  "parse_text_line [CHR '' '', CHR 0x09, CHR '' '', CHR 0x0A] = None"
proof -
  have h: "\<forall>c\<in>set [CHR '' '', CHR 0x09, CHR '' '', CHR 0x0A]. isspace c"
    by (simp add: isspace_def)
  from parse_text_line_examples have
    "\<forall>line. (\<forall>c\<in>set line. isspace c) \<longrightarrow> parse_text_line line = None"
    by blast
  with h show ?thesis by blast
qed

subsection \<open>The two menu builders agree\<close>

lemma indexer_write_jump_entries_eq:
  "indexer_write_jump_entries f labels = write_jump_entries f labels"
  by (induction labels arbitrary: f) simp_all

lemma write_jump_menu_to_file_eq:
  "write_jump_menu_to_file f top_label labels go_back_label =
   write_jump_menu_to_script_file f top_label labels go_back_label"
  by (simp add: write_jump_menu_to_file_def write_jump_menu_to_script_file_def
      indexer_write_jump_entries_eq Let_def)

lemma indexer_batch_labels_loop_eq:
  "indexer_batch_labels_loop labels batch_size i = batch_labels_loop labels batch_size i"
proof (induction labels batch_size i rule: batch_labels_loop.induct)
  case (1 labels batch_size i)
  show ?case
  proof (cases "batch_size = 0 \<or> length labels \<le> i")
    case True
    then show ?thesis
      by (subst indexer_batch_labels_loop.simps, subst batch_labels_loop.simps) simp
  next
    case False
    with "1.IH" show ?thesis
      by (subst indexer_batch_labels_loop.simps, subst batch_labels_loop.simps) simp
  qed
qed

lemma indexer_batch_labels_eq:
  "indexer_batch_labels labels batch_size = batch_labels labels batch_size"
  by (simp add: indexer_batch_labels_def batch_labels_def indexer_batch_labels_loop_eq)

lemma indexer_write_submenus_eq:
  "indexer_write_submenus f root_label batches n tops = write_submenus f root_label batches n tops"
  by (induction batches arbitrary: f n tops) (simp_all add: write_jump_menu_to_file_eq)

text \<open>
  Claim C2. The generator's \<^verbatim>\<open>write_labels_to_script_file\<close> and the indexer's
  \<^verbatim>\<open>write_labels_to_file_in_batches\<close>, its go-back label left at \<^verbatim>\<open>None\<close>, write the same
  text to the same sink, for every label list, root label and page size.
\<close>

theorem generator_indexer_same_menu:
  "write_labels_to_script_file f labels root_label label_page_size =
   write_labels_to_file_in_batches f root_label labels None label_page_size"
  by (simp only: write_labels_to_script_file_def write_labels_to_file_in_batches_def
      indexer_write_submenus_eq indexer_batch_labels_eq write_jump_menu_to_file_eq)

theorem generator_indexer_same_menu_witness:
  "write_labels_to_script_file ''init:'' [''a'', ''b'', ''c''] ''main'' 2 =
   write_labels_to_file_in_batches ''init:'' ''main'' [''a'', ''b'', ''c''] None 2"
  by (rule generator_indexer_same_menu)

subsection \<open>Degenerate menus\<close>

text \<open>
  Claim C6. With an empty label list and no go-back label (\<^verbatim>\<open>None\<close>, or the empty string,
  which Python's truth test treats alike), the menu builder of either tool writes one
  page under the root label: the label line, a blank line and the single statement
  \<^verbatim>\<open>pass\<close>; no menu and no entry. This holds for every page size, and the jump-menu
  writers behave the same.
\<close>

theorem empty_menu_placeholder:
  "write_labels_to_script_file f [] root_label label_page_size =
     f @ ''label '' @ root_label @ '':'' @ NL @ NL @ ''    pass'' @ NL
   \<and> write_labels_to_file_in_batches f root_label [] None label_page_size =
     f @ ''label '' @ root_label @ '':'' @ NL @ NL @ ''    pass'' @ NL
   \<and> write_labels_to_file_in_batches f root_label [] (Some []) label_page_size =
     f @ ''label '' @ root_label @ '':'' @ NL @ NL @ ''    pass'' @ NL
   \<and> write_jump_menu_to_script_file f root_label [] None =
     f @ ''label '' @ root_label @ '':'' @ NL @ NL @ ''    pass'' @ NL
   \<and> write_jump_menu_to_script_file f root_label [] (Some []) =
     f @ ''label '' @ root_label @ '':'' @ NL @ NL @ ''    pass'' @ NL
   \<and> write_jump_menu_to_file f root_label [] None =
     f @ ''label '' @ root_label @ '':'' @ NL @ NL @ ''    pass'' @ NL
   \<and> write_jump_menu_to_file f root_label [] (Some []) =
     f @ ''label '' @ root_label @ '':'' @ NL @ NL @ ''    pass'' @ NL"
  by (simp add: write_labels_to_script_file_def write_labels_to_file_in_batches_def
      write_jump_menu_to_script_file_def write_jump_menu_to_file_def file_write_def
      LABEL_def TAB_def)

theorem empty_menu_placeholder_witness:
  "write_labels_to_script_file [] [] ''main'' 20 = ''label main:'' @ NL @ NL @ ''    pass'' @ NL
   \<and> write_labels_to_file_in_batches [] ''main'' [] None 0 =
       ''label main:'' @ NL @ NL @ ''    pass'' @ NL"
  using empty_menu_placeholder [of "[]" "''main''" 20]
    empty_menu_placeholder [of "[]" "''main''" 0]
  by simp

text \<open>
  Claim C10. The jump-menu writer of either tool, given an empty label list and a
  non-empty go-back label, writes the label line, a blank line, the \<^verbatim>\<open>menu:\<close> line and
  exactly one entry, the back entry jumping to the go-back label; no \<^verbatim>\<open>pass\<close> and no
  label entry.
\<close>

theorem back_only_menu:
  "go_back_label \<noteq> [] \<Longrightarrow>
     write_jump_menu_to_script_file f top_label [] (Some go_back_label) =
       f @ ''label '' @ top_label @ '':'' @ NL @ NL @ ''    menu:'' @ NL
         @ ''        '' @ DQUOTE @ ''< BACK'' @ DQUOTE @ '':'' @ NL
         @ ''            jump '' @ go_back_label @ NL @ NL
     \<and> write_jump_menu_to_file f top_label [] (Some go_back_label) =
       f @ ''label '' @ top_label @ '':'' @ NL @ NL @ ''    menu:'' @ NL
         @ ''        '' @ DQUOTE @ ''< BACK'' @ DQUOTE @ '':'' @ NL
         @ ''            jump '' @ go_back_label @ NL @ NL"
  by (simp add: write_jump_menu_to_script_file_def write_jump_menu_to_file_def file_write_def
      LABEL_def TAB_def)

theorem back_only_menu_witness:
  "''main'' \<noteq> []
   \<and> write_jump_menu_to_script_file [] ''index_a'' [] (Some ''main'') =
       ''label index_a:'' @ NL @ NL @ ''    menu:'' @ NL
         @ ''        '' @ DQUOTE @ ''< BACK'' @ DQUOTE @ '':'' @ NL
         @ ''            jump main'' @ NL @ NL
   \<and> write_jump_menu_to_file [] ''index_a'' [] (Some ''main'') =
       ''label index_a:'' @ NL @ NL @ ''    menu:'' @ NL
         @ ''        '' @ DQUOTE @ ''< BACK'' @ DQUOTE @ '':'' @ NL
         @ ''            jump main'' @ NL @ NL"
proof -
  have h: "''main'' \<noteq> []" by simp
  from back_only_menu [OF h, of "[]" "''index_a''"] show ?thesis by simp
qed

subsection \<open>Decimal numerals and trimming\<close>

lemma digit_nth: "k < 10 \<Longrightarrow> ''0123456789'' ! k \<in> set ''0123456789''"
  by (rule nth_mem) simp

lemma str_nat_digits: "set (str_nat n) \<subseteq> set ''0123456789''"
proof (induction n rule: str_nat.induct)
  case (1 n)
  have d: "''0123456789'' ! (n mod 10) \<in> set ''0123456789''"
    by (rule digit_nth) simp
  show ?case
  proof (cases "n < 10")
    case True
    then have e: "str_nat n = [''0123456789'' ! n]" by (subst str_nat.simps) simp
    from True have "''0123456789'' ! n \<in> set ''0123456789''" by (rule digit_nth)
    then show ?thesis unfolding e
      by (simp only: list.set insert_subset empty_subsetI simp_thms)
  next
    case False
    then have e: "str_nat n = str_nat (n div 10) @ [''0123456789'' ! (n mod 10)]"
      by (subst str_nat.simps) simp
    from False "1.IH" have "set (str_nat (n div 10)) \<subseteq> set ''0123456789''" by simp
    with d show ?thesis unfolding e
      by (simp only: set_append list.set Un_subset_iff insert_subset empty_subsetI simp_thms)
  qed
qed

lemma str_nat_nonempty: "str_nat n \<noteq> []"
  by (subst str_nat.simps) simp


lemma digit_plain:
  "c \<in> set ''0123456789'' \<Longrightarrow> c \<noteq> CHR '' '' \<and> c \<noteq> CHR '':'' \<and> \<not> isspace c \<and> isdigit c"
  by (auto simp: isspace_def isdigit_def)

lemma str_nat_plain:
  "c \<in> set (str_nat n) \<Longrightarrow> c \<noteq> CHR '' '' \<and> c \<noteq> CHR '':'' \<and> \<not> isspace c"
  using str_nat_digits [of n] digit_plain [of c] by blast

lemma str_int_plain:
  "c \<in> set (str_int i) \<Longrightarrow> c \<noteq> CHR '' '' \<and> c \<noteq> CHR '':'' \<and> \<not> isspace c"
proof -
  assume a: "c \<in> set (str_int i)"
  have m: "CHR ''-'' \<noteq> CHR '' '' \<and> CHR ''-'' \<noteq> CHR '':'' \<and> \<not> isspace CHR ''-''"
    by (simp add: isspace_def)
  show ?thesis
  proof (cases "i < 0")
    case True
    with a have "c = CHR ''-'' \<or> c \<in> set (str_nat (nat (- i)))"
      by (simp add: str_int_def)
    with m str_nat_plain show ?thesis by blast
  next
    case False
    with a have "c \<in> set (str_nat (nat i))" by (simp add: str_int_def)
    then show ?thesis by (rule str_nat_plain)
  qed
qed

lemma str_int_nonempty: "str_int i \<noteq> []"
  by (simp add: str_int_def str_nat_nonempty)

lemma last_dropWhile: "dropWhile P s \<noteq> [] \<Longrightarrow> last (dropWhile P s) = last s"
proof -
  assume a: "dropWhile P s \<noteq> []"
  have "last (takeWhile P s @ dropWhile P s) = last (dropWhile P s)"
    using a by (rule last_appendR)
  then show ?thesis by (simp only: takeWhile_dropWhile_id)
qed

lemma str_rstrip_last: "str_rstrip s \<noteq> [] \<Longrightarrow> \<not> isspace (last (str_rstrip s))"
proof -
  assume a: "str_rstrip s \<noteq> []"
  define d where "d = dropWhile isspace (rev s)"
  have e: "str_rstrip s = rev d" by (simp only: str_rstrip_def d_def)
  from a have ne: "d \<noteq> []" unfolding e by (simp only: rev_is_Nil_conv not_False_eq_True)
  then have h: "\<not> isspace (hd d)" unfolding d_def by (rule hd_dropWhile)
  have "last (rev d) = hd d" using ne by (simp add: last_rev)
  with h show ?thesis unfolding e by (simp only: not_False_eq_True)
qed

lemma str_strip_hd: "str_strip s \<noteq> [] \<Longrightarrow> \<not> isspace (hd (str_strip s))"
  unfolding str_strip_def str_lstrip_def by (rule hd_dropWhile)

lemma str_strip_last: "str_strip s \<noteq> [] \<Longrightarrow> \<not> isspace (last (str_strip s))"
proof -
  assume a: "str_strip s \<noteq> []"
  then have l: "dropWhile isspace (str_rstrip s) \<noteq> []"
    by (simp only: str_strip_def str_lstrip_def not_False_eq_True)
  have r: "str_rstrip s \<noteq> []"
  proof
    assume "str_rstrip s = []"
    then have "dropWhile isspace (str_rstrip s) = []" by (simp only: dropWhile.simps)
    with l show False by (rule notE)
  qed
  have "last (str_strip s) = last (str_rstrip s)"
    unfolding str_strip_def str_lstrip_def using l by (rule last_dropWhile)
  with str_rstrip_last [OF r] show ?thesis by (simp only: not_False_eq_True)
qed

lemma dropWhile_id: "xs \<noteq> [] \<Longrightarrow> \<not> P (hd xs) \<Longrightarrow> dropWhile P xs = xs"
  by (cases xs) simp_all

lemma str_strip_id: "s \<noteq> [] \<Longrightarrow> \<not> isspace (hd s) \<Longrightarrow> \<not> isspace (last s) \<Longrightarrow> str_strip s = s"
proof -
  assume a: "s \<noteq> []" "\<not> isspace (hd s)" "\<not> isspace (last s)"
  from a(1) have "hd (rev s) = last s" by (simp add: hd_rev)
  with a(3) have "\<not> isspace (hd (rev s))" by (simp only: not_False_eq_True)
  moreover from a(1) have "rev s \<noteq> []" by (simp only: rev_is_Nil_conv not_False_eq_True)
  ultimately have "dropWhile isspace (rev s) = rev s" by (rule dropWhile_id [rotated])
  then have r: "str_rstrip s = s" by (simp only: str_rstrip_def rev_rev_ident)
  from a(1,2) have "dropWhile isspace s = s" by (rule dropWhile_id)
  with r show ?thesis by (simp only: str_strip_def str_lstrip_def)
qed


subsection \<open>The phrase of a parsed line\<close>

lemma str_find_range: "str_find s c = - 1 \<or> 0 \<le> str_find s c"
  by (induction s) (auto simp: Let_def)

lemma str_find_absent: "str_find s c < 0 \<Longrightarrow> c \<notin> set s"
  using str_find_range [of _ c]
  by (induction s) (auto simp: Let_def split: if_splits)

lemma str_lstrip_char_absent: "c \<notin> set s \<Longrightarrow> str_lstrip_char c s = s"
  by (cases s) (auto simp: str_lstrip_char_def)

lemma str_strip_idem: "str_strip (str_strip s) = str_strip s"
proof (cases "str_strip s = []")
  case True
  have "str_strip [] = []" by (simp add: str_strip_def str_lstrip_def str_rstrip_def)
  then show ?thesis by (simp only: True)
next
  case False
  then show ?thesis by (simp add: str_strip_id str_strip_hd str_strip_last)
qed

lemma ellipsis_last: "ELLIPSIS \<noteq> [] \<and> \<not> isspace (last ELLIPSIS)"
  by (simp add: ELLIPSIS_def isspace_def)

lemma narration_phrase:
  assumes "t = str_strip line" "t \<noteq> []" "str_find t COLON < 1" "str_lstrip_char COLON t \<noteq> []"
  shows "\<not> isspace (last (str_lstrip_char COLON t))"
    and "str_strip (str_lstrip_char COLON t) = str_lstrip_char COLON t
         \<or> str_find t COLON = 0"
proof -
  have "last (str_lstrip_char COLON t) = last t"
    using assms(4) unfolding str_lstrip_char_def by (rule last_dropWhile)
  moreover have "\<not> isspace (last t)"
    using assms(2) unfolding assms(1) by (rule str_strip_last)
  ultimately show "\<not> isspace (last (str_lstrip_char COLON t))" by simp
  show "str_strip (str_lstrip_char COLON t) = str_lstrip_char COLON t \<or> str_find t COLON = 0"
  proof (cases "str_find t COLON = 0")
    case True
    then show ?thesis by simp
  next
    case False
    with assms(3) have "str_find t COLON < 0" by simp
    then have "COLON \<notin> set t" by (rule str_find_absent)
    then have "str_lstrip_char COLON t = t" by (rule str_lstrip_char_absent)
    then show ?thesis by (simp add: assms(1) str_strip_idem)
  qed
qed

text \<open>
  Claim C9, as amended. Whenever \<^verbatim>\<open>parse_text_line\<close> returns a record, its phrase is a
  non-empty string that does not end with whitespace: it is the ellipsis placeholder, or
  non-empty trimmed text, or, when the trimmed line starts with the colon, the trimmed
  line with its leading colons removed, which is not trimmed again and may start with
  whitespace. Its speaker name is absent or a non-empty string; so no record has both
  fields empty.
\<close>

theorem parse_text_line_record_nonempty:
  "parse_text_line line = Some r \<Longrightarrow>
     phrase r \<noteq> [] \<and> \<not> isspace (last (phrase r))
     \<and> (phrase r = ELLIPSIS
        \<or> str_strip (phrase r) = phrase r
        \<or> (str_find (str_strip line) COLON = 0 \<and> character_name r = None
            \<and> phrase r = str_lstrip_char COLON (str_strip line)))
     \<and> character_name r \<noteq> Some []
     \<and> (character_name r = None \<or> (\<exists>n. character_name r = Some n \<and> n \<noteq> []))"
proof -
  assume a: "parse_text_line line = Some r"
  define t where "t = str_strip line"
  from a have t: "t \<noteq> []"
    by (auto simp: parse_text_line_def t_def Let_def split: if_splits)
  show ?thesis
  proof (cases "str_find t COLON < 1")
    case True
    with a t have r: "r = \<lparr>character_name = None, phrase = str_lstrip_char COLON t\<rparr>"
      and ne: "str_lstrip_char COLON t \<noteq> []"
      by (auto simp: parse_text_line_def t_def [symmetric] Let_def split: if_splits)
    from narration_phrase [OF t_def t True ne] ne show ?thesis
      unfolding r t_def [symmetric] by auto
  next
    case False
    define q where "q = str_strip (drop (nat (str_find t COLON + 1)) t)"
    have q: "q \<noteq> [] \<Longrightarrow> \<not> isspace (last q) \<and> str_strip q = q"
      unfolding q_def by (simp add: str_strip_last str_strip_idem)
    from a t False have
      "(phrase r = ELLIPSIS \<or> (phrase r = q \<and> q \<noteq> []))
       \<and> character_name r \<noteq> Some []
       \<and> (character_name r = None \<or> (\<exists>n. character_name r = Some n \<and> n \<noteq> []))"
      by (auto simp: parse_text_line_def t_def [symmetric] q_def [symmetric] Let_def
          split: if_splits)
    with q ellipsis_last show ?thesis by auto
  qed
qed

theorem parse_text_line_record_nonempty_witness:
  "parse_text_line ''Alice: Hello'' = Some \<lparr>character_name = Some ''Alice'', phrase = ''Hello''\<rparr>
   \<and> phrase \<lparr>character_name = Some ''Alice'', phrase = ''Hello''\<rparr> \<noteq> []
   \<and> character_name \<lparr>character_name = Some ''Alice'', phrase = ''Hello''\<rparr> \<noteq> Some []"
proof -
  have h: "parse_text_line ''Alice: Hello'' = Some \<lparr>character_name = Some ''Alice'', phrase = ''Hello''\<rparr>"
    by code_simp
  from parse_text_line_record_nonempty [OF h] h show ?thesis by blast
qed

text \<open>
  The claim as stated fails on the narration branch: the line \<^verbatim>\<open>": x"\<close> gives the phrase
  \<^verbatim>\<open>" x"\<close>, which starts with a space, so it is neither trimmed text nor the ellipsis.
\<close>

theorem parse_text_line_untrimmed_counterexample:
  "parse_text_line '': x'' = Some \<lparr>character_name = None, phrase = '' x''\<rparr>
   \<and> '' x'' \<noteq> ELLIPSIS
   \<and> str_strip '' x'' \<noteq> '' x''
   \<and> isspace (hd '' x'')"
  by code_simp

subsection \<open>Label normalisation\<close>

lemma indexer_normalize_label_eq:
  "indexer_normalize_label label default_label now = normalize_label label default_label now"
  by (simp only: indexer_normalize_label_def normalize_label_def COLON_def)

lemma replaced_props:
  "CHR '' '' \<notin> set (replaced t) \<and> CHR '':'' \<notin> set (replaced t) \<and> length (replaced t) = length t"
  by (auto simp: replaced_def str_replace_char_def COLON_def)

lemma replaced_hd: "t \<noteq> [] \<Longrightarrow> \<not> isspace (hd t) \<Longrightarrow> \<not> isspace (hd (replaced t))"
  by (cases t) (auto simp: replaced_def str_replace_char_def COLON_def isspace_def)

lemma replaced_last: "t \<noteq> [] \<Longrightarrow> \<not> isspace (last t) \<Longrightarrow> \<not> isspace (last (replaced t))"
  by (auto simp: replaced_def str_replace_char_def COLON_def isspace_def last_map)

lemma replaced_id: "CHR '' '' \<notin> set t \<Longrightarrow> CHR '':'' \<notin> set t \<Longrightarrow> replaced t = t"
  by (induction t) (auto simp: replaced_def str_replace_char_def COLON_def)

lemma normalize_label_cases:
  "normalize_label label default_label now =
     (if trimmed_text label = [] then
        (if truthy default_label then the default_label else ''label_'' @ str_int now)
      else if isdigit (hd (replaced (trimmed_text label)))
        then ''label_'' @ replaced (trimmed_text label)
        else replaced (trimmed_text label))"
  by (cases label)
     (auto simp: normalize_label_def trimmed_text_def replaced_def LABEL_def Let_def
        str_strip_def str_lstrip_def str_rstrip_def)

lemma trimmed_text_ends:
  "trimmed_text label \<noteq> [] \<Longrightarrow>
     \<not> isspace (hd (trimmed_text label)) \<and> \<not> isspace (last (trimmed_text label))"
  by (cases label) (simp_all add: trimmed_text_def str_strip_hd str_strip_last)

lemma label_prefix_plain:
  "CHR '' '' \<notin> set ''label_'' \<and> CHR '':'' \<notin> set ''label_'' \<and> \<not> isdigit (hd (''label_'' @ s))
   \<and> \<not> isspace (hd (''label_'' @ s))"
  by (simp add: isdigit_def isspace_def)

lemma normalized_replaced:
  assumes "t \<noteq> []" "\<not> isspace (hd t)" "\<not> isspace (last t)"
  shows "normalized (if isdigit (hd (replaced t)) then ''label_'' @ replaced t else replaced t)"
proof -
  from assms(1) have ne: "replaced t \<noteq> []"
    using replaced_props [of t] by (cases "replaced t") auto
  have l: "\<not> isspace (last (replaced t))" using assms(1,3) by (rule replaced_last)
  have h: "\<not> isspace (hd (replaced t))" using assms(1,2) by (rule replaced_hd)
  show ?thesis
  proof (cases "isdigit (hd (replaced t))")
    case True
    have "last (''label_'' @ replaced t) = last (replaced t)" using ne by simp
    with True l replaced_props [of t] label_prefix_plain [of "replaced t"] show ?thesis
      by (simp add: normalized_def)
  next
    case False
    with ne l h replaced_props [of t] show ?thesis
      by (simp add: normalized_def)
  qed
qed

lemma normalized_timestamp: "normalized (''label_'' @ str_int now)"
proof -
  have ne: "str_int now \<noteq> []" by (rule str_int_nonempty)
  then have "last (str_int now) \<in> set (str_int now)" by (rule last_in_set)
  then have l: "\<not> isspace (last (str_int now))" using str_int_plain by blast
  have e: "last (''label_'' @ str_int now) = last (str_int now)" using ne by simp
  have s: "CHR '' '' \<notin> set (str_int now) \<and> CHR '':'' \<notin> set (str_int now)"
    using str_int_plain [of _ now] by blast
  from l s label_prefix_plain [of "str_int now"] show ?thesis
    unfolding normalized_def e by simp
qed

lemma normalize_label_normalized:
  "\<not> (trimmed_text label = [] \<and> truthy default_label) \<Longrightarrow>
     normalized (normalize_label label default_label now)"
  using normalized_timestamp [of now] trimmed_text_ends [of label]
    normalized_replaced [of "trimmed_text label"]
  by (auto simp: normalize_label_cases)

lemma normalize_label_fixed:
  assumes "normalized l"
  shows "normalize_label (Some l) default_label now = l"
proof -
  from assms have a: "l \<noteq> []" "\<not> isspace (hd l)" "\<not> isspace (last l)"
      "CHR '' '' \<notin> set l" "CHR '':'' \<notin> set l" "\<not> isdigit (hd l)"
    by (simp_all add: normalized_def)
  have t: "trimmed_text (Some l) = l"
    using a(1-3) by (simp add: trimmed_text_def str_strip_id)
  have r: "replaced l = l" using a(4,5) by (rule replaced_id)
  show ?thesis using a(1,6) by (simp add: normalize_label_cases t r)
qed

lemma normalize_label_nonempty: "normalize_label label default_label now \<noteq> []"
proof (cases "trimmed_text label = [] \<and> truthy default_label")
  case True
  then show ?thesis by (cases default_label) (simp_all add: normalize_label_cases)
next
  case False
  then have "normalized (normalize_label label default_label now)"
    by (rule normalize_label_normalized)
  then show ?thesis by (simp add: normalized_def)
qed

text \<open>
  Claim C3, as amended. \<^verbatim>\<open>normalize_label\<close> never returns the empty string. It trims the
  text; when nothing is left it returns the non-empty default as it stands, or, with no
  such default, the prefix \<^verbatim>\<open>label_\<close> followed by the clock's milliseconds; otherwise it
  replaces spaces and colons by underscores and prepends \<^verbatim>\<open>label_\<close> when the result
  starts with a digit. Unless the result is the caller's default returned as it stands,
  the result contains no space and no colon and does not start with a digit.
\<close>

theorem normalize_label_contract:
  "normalize_label label default_label now \<noteq> []
   \<and> (trimmed_text label = [] \<and> truthy default_label \<longrightarrow>
        normalize_label label default_label now = the default_label)
   \<and> (trimmed_text label = [] \<and> \<not> truthy default_label \<longrightarrow>
        normalize_label label default_label now = ''label_'' @ str_int now)
   \<and> (trimmed_text label \<noteq> [] \<longrightarrow>
        normalize_label label default_label now =
          (if isdigit (hd (replaced (trimmed_text label)))
           then ''label_'' @ replaced (trimmed_text label)
           else replaced (trimmed_text label)))
   \<and> (\<not> (trimmed_text label = [] \<and> truthy default_label) \<longrightarrow>
        CHR '' '' \<notin> set (normalize_label label default_label now)
        \<and> CHR '':'' \<notin> set (normalize_label label default_label now)
        \<and> \<not> isdigit (hd (normalize_label label default_label now)))"
proof (intro conjI impI)
  show "normalize_label label default_label now \<noteq> []"
    by (rule normalize_label_nonempty)
next
  assume "trimmed_text label = [] \<and> truthy default_label"
  then show "normalize_label label default_label now = the default_label"
    by (simp add: normalize_label_cases)
next
  assume "trimmed_text label = [] \<and> \<not> truthy default_label"
  then show "normalize_label label default_label now = ''label_'' @ str_int now"
    by (simp add: normalize_label_cases)
next
  assume "trimmed_text label \<noteq> []"
  then show "normalize_label label default_label now =
          (if isdigit (hd (replaced (trimmed_text label)))
           then ''label_'' @ replaced (trimmed_text label)
           else replaced (trimmed_text label))"
    by (simp add: normalize_label_cases)
next
  assume a: "\<not> (trimmed_text label = [] \<and> truthy default_label)"
  then have n: "normalized (normalize_label label default_label now)"
    by (rule normalize_label_normalized)
  from n show "CHR '' '' \<notin> set (normalize_label label default_label now)"
    by (simp add: normalized_def)
  from n show "CHR '':'' \<notin> set (normalize_label label default_label now)"
    by (simp add: normalized_def)
  from n show "\<not> isdigit (hd (normalize_label label default_label now))"
    by (simp add: normalized_def)
qed

theorem normalize_label_contract_witness:
  "normalize_label (Some '' 12 a:b '') None 5 = ''label_12_a_b''
   \<and> CHR '' '' \<notin> set (normalize_label (Some '' 12 a:b '') None 5)
   \<and> CHR '':'' \<notin> set (normalize_label (Some '' 12 a:b '') None 5)
   \<and> \<not> isdigit (hd (normalize_label (Some '' 12 a:b '') None 5))"
proof -
  have h: "\<not> (trimmed_text (Some '' 12 a:b '') = [] \<and> truthy None)" by simp
  have e: "normalize_label (Some '' 12 a:b '') None 5 = ''label_12_a_b''" by code_simp
  from normalize_label_contract [of "Some '' 12 a:b ''" None 5] h e show ?thesis by blast
qed

text \<open>
  The claim as stated fails when the default is returned: with no text and the default
  \<^verbatim>\<open>"1 a:b"\<close> the result is that default, which holds a space and a colon and starts
  with a digit.
\<close>

theorem normalize_label_default_counterexample:
  "normalize_label None (Some ''1 a:b'') 0 = ''1 a:b''
   \<and> CHR '' '' \<in> set (normalize_label None (Some ''1 a:b'') 0)
   \<and> CHR '':'' \<in> set (normalize_label None (Some ''1 a:b'') 0)
   \<and> isdigit (hd (normalize_label None (Some ''1 a:b'') 0))"
  by (simp add: normalize_label_def isdigit_def)

text \<open>
  Claim C4, as amended. Both copies of \<^verbatim>\<open>normalize_label\<close> return a normalised label
  (non-empty, no space, no colon, not starting with a digit, no surrounding whitespace)
  unchanged, whatever the default and the clock. Applying \<^verbatim>\<open>normalize_label\<close> to its own
  output returns that output whenever the output is not a default that is itself not
  normalised: that is, when the text is non-empty after trimming, or no non-empty
  default is given, or the default is a normalised label.
\<close>

theorem normalize_label_idempotent:
  "(normalized l \<longrightarrow>
      normalize_label (Some l) d now = l \<and> indexer_normalize_label (Some l) d now = l)
   \<and> ((trimmed_text label = [] \<and> truthy default_label \<longrightarrow> normalized (the default_label)) \<longrightarrow>
      normalize_label (Some (normalize_label label default_label now)) d' now' =
        normalize_label label default_label now
      \<and> indexer_normalize_label (Some (indexer_normalize_label label default_label now)) d' now' =
        indexer_normalize_label label default_label now)"
proof (intro conjI impI)
  assume "normalized l"
  then show "normalize_label (Some l) d now = l"
    by (rule normalize_label_fixed)
  then show "indexer_normalize_label (Some l) d now = l"
    by (simp only: indexer_normalize_label_eq)
next
  assume a: "trimmed_text label = [] \<and> truthy default_label \<longrightarrow> normalized (the default_label)"
  have n: "normalized (normalize_label label default_label now)"
  proof (cases "trimmed_text label = [] \<and> truthy default_label")
    case True
    with a show ?thesis by (simp add: normalize_label_cases)
  next
    case False
    then show ?thesis by (rule normalize_label_normalized)
  qed
  then show "normalize_label (Some (normalize_label label default_label now)) d' now' =
        normalize_label label default_label now"
    by (rule normalize_label_fixed)
  then show "indexer_normalize_label (Some (indexer_normalize_label label default_label now)) d' now' =
        indexer_normalize_label label default_label now"
    by (simp only: indexer_normalize_label_eq)
qed

theorem normalize_label_idempotent_witness:
  "normalized ''chapter_1''
   \<and> normalize_label (Some ''chapter_1'') (Some ''main'') 7 = ''chapter_1''
   \<and> indexer_normalize_label (Some ''chapter_1'') (Some ''main'') 7 = ''chapter_1''
   \<and> normalize_label (Some (normalize_label (Some '' 1 a:b '') None 7)) None 8 =
       normalize_label (Some '' 1 a:b '') None 7"
proof -
  have h: "normalized ''chapter_1''"
    by (simp add: normalized_def isdigit_def isspace_def)
  have g: "trimmed_text (Some '' 1 a:b '') = [] \<and> truthy None \<longrightarrow> normalized (the None)"
    by simp
  from normalize_label_idempotent [where l = "''chapter_1''" and d = "Some ''main''"
      and now = 7 and label = "Some '' 1 a:b ''" and default_label = None
      and d' = None and now' = 8] h g
  show ?thesis by blast
qed

text \<open>
  The second half of the claim as stated fails when a default that is not normalised is
  returned: with no text and the default \<^verbatim>\<open>"1a"\<close> the result is \<^verbatim>\<open>"1a"\<close>, and normalising
  that again gives \<^verbatim>\<open>"label_1a"\<close>.
\<close>

theorem normalize_label_idempotent_counterexample:
  "normalize_label None (Some ''1a'') 0 = ''1a''
   \<and> normalize_label (Some (normalize_label None (Some ''1a'') 0)) (Some ''1a'') 0 = ''label_1a''
   \<and> normalize_label (Some (normalize_label None (Some ''1a'') 0)) (Some ''1a'') 0
       \<noteq> normalize_label None (Some ''1a'') 0"
  by code_simp


subsection \<open>The menu tree\<close>

lemma slice_take: "i < length xs \<Longrightarrow> slice xs i (min (i + p) (length xs)) = take p (drop i xs)"
  by (simp add: slice_def min_def)

lemma page_count_step:
  "0 < p \<Longrightarrow> i < n \<Longrightarrow> page_count (n - i) p = Suc (page_count (n - (i + p)) p)"
proof -
  assume p: "0 < p" and i: "i < n"
  show ?thesis
  proof (cases "i + p \<le> n")
    case True
    then have e: "n - i + p - 1 = (n - (i + p) + p - 1) + p" using p by simp
    have "(n - (i + p) + p - 1 + p) div p = Suc ((n - (i + p) + p - 1) div p)"
      using p by (simp only: div_add_self2 [of p] neq0_conv [symmetric] not_False_eq_True)
    then show ?thesis unfolding page_count_def e .
  next
    case False
    then have a: "n - (i + p) = 0" by simp
    from False i p have b: "(n - i + p - 1) div p = 1"
      by (simp add: div_eq_dividend_iff Euclidean_Rings.div_eq_0_iff div_nat_eqI)
    from p have "(p - 1) div p = 0" by simp
    with a b show ?thesis by (simp add: page_count_def)
  qed
qed

lemma page_count_zero: "0 < p \<Longrightarrow> page_count 0 p = 0"
  by (simp add: page_count_def)

lemma batch_labels_loop_closed:
  "0 < p \<Longrightarrow>
     batch_labels_loop labels p i =
       map (\<lambda>j. take p (drop (i + j * p) labels)) [0..<page_count (length labels - i) p]"
proof (induction labels p i rule: batch_labels_loop.induct)
  case (1 labels p i)
  show ?case
  proof (cases "length labels \<le> i")
    case True
    with "1.prems" show ?thesis
      by (subst batch_labels_loop.simps) (simp add: page_count_zero)
  next
    case False
    then have lt: "i < length labels" by simp
    have ih: "batch_labels_loop labels p (i + p) =
       map (\<lambda>j. take p (drop (i + p + j * p) labels)) [0..<page_count (length labels - (i + p)) p]"
      using "1.IH" "1.prems" False by simp
    have st: "page_count (length labels - i) p = Suc (page_count (length labels - (i + p)) p)"
      using "1.prems" lt by (rule page_count_step)
    have "batch_labels_loop labels p i =
        take p (drop i labels) # batch_labels_loop labels p (i + p)"
      using "1.prems" lt by (subst batch_labels_loop.simps) (simp add: slice_take)
    also have "\<dots> = map (\<lambda>j. take p (drop (i + j * p) labels))
          (0 # map Suc [0..<page_count (length labels - (i + p)) p])"
      by (simp add: ih comp_def add.assoc add.commute)
    also have "0 # map Suc [0..<page_count (length labels - (i + p)) p] =
          [0..<page_count (length labels - i) p]"
      by (simp only: st map_Suc_upt upt_conv_Cons [symmetric] zero_less_Suc)
    finally show ?thesis .
  qed
qed

lemma batch_labels_closed:
  "0 < P \<Longrightarrow> batch_labels labels P = map (chunk labels (nat P)) [0..<page_count (length labels) (nat P)]"
proof -
  assume P: "0 < P"
  then have p: "0 < nat P" by simp
  show ?thesis
  proof (cases "labels = []")
    case True
    with p show ?thesis by (simp add: batch_labels_def page_count_zero)
  next
    case False
    with P show ?thesis
      by (simp add: batch_labels_def batch_labels_loop_closed [OF p] chunk_def)
  qed
qed

lemma emit_pages_append: "emit_pages f (xs @ ys) = emit_pages (emit_pages f xs) ys"
  by (induction xs arbitrary: f) auto

lemma write_submenus_closed:
  "write_submenus f root_label (map g [a..<a + k]) a tops =
     (emit_pages f (map (\<lambda>i. (sub_page_label root_label i, g i, Some root_label)) [a..<a + k]),
      a + k,
      tops @ map (sub_page_label root_label) [a..<a + k])"
proof (induction k arbitrary: f a tops)
  case 0
  show ?case by simp
next
  case (Suc k)
  have u: "[a..<a + Suc k] = a # [Suc a..<Suc a + k]"
    by (simp add: upt_conv_Cons)
  show ?case
    unfolding u using Suc.IH [of _ "Suc a"]
    by (simp add: sub_page_label_def Let_def)
qed

lemma concat_chunks: "concat (map (chunk xs p) [0..<m]) = take (m * p) xs"
proof (induction m)
  case 0
  show ?case by simp
next
  case (Suc m)
  have "take (m * p + p) xs = take (m * p) xs @ take p (drop (m * p) xs)"
    by (rule take_add)
  with Suc show ?case by (simp add: chunk_def add.commute)
qed

lemma page_count_bounds:
  assumes "0 < p" "0 < n"
  shows "n \<le> page_count n p * p" and "(page_count n p - 1) * p < n" and "0 < page_count n p"
proof -
  define q where "q = (n + p - 1) div p"
  define r where "r = (n + p - 1) mod p"
  have e: "q * p + r = n + p - 1" unfolding q_def r_def by simp
  have r: "r < p" unfolding r_def using assms(1) by simp
  from e r assms show a: "n \<le> page_count n p * p"
    unfolding page_count_def q_def [symmetric] by linarith
  from a assms show pos: "0 < page_count n p" by (cases "page_count n p") auto
  have "(q - 1) * p + p = q * p"
    using pos unfolding page_count_def q_def [symmetric]
    by (cases q) simp_all
  with e r assms show "(page_count n p - 1) * p < n"
    unfolding page_count_def q_def [symmetric] by linarith
qed

lemma chunk_length: "length (chunk xs p i) = min p (length xs - i * p)"
  by (simp add: chunk_def)

lemma chunk_full:
  assumes "0 < p" "i + 1 < page_count (length xs) p"
  shows "length (chunk xs p i) = p"
proof -
  from assms(2) have n: "0 < length xs"
    using assms(1) by (cases "length xs = 0") (simp_all add: page_count_zero)
  from assms(2) have "i + 1 \<le> page_count (length xs) p - 1" by simp
  then have "(i + 1) * p \<le> (page_count (length xs) p - 1) * p" by (rule mult_le_mono1)
  also have "\<dots> < length xs" using assms(1) n by (rule page_count_bounds(2))
  finally have "i * p + p \<le> length xs" by simp
  then show ?thesis by (simp add: chunk_length)
qed

lemma chunk_last:
  assumes "0 < p" "0 < length xs"
  shows "0 < length (chunk xs p (page_count (length xs) p - 1))"
    and "length (chunk xs p (page_count (length xs) p - 1)) \<le> p"
  using page_count_bounds(2) [OF assms] assms(1) by (simp_all add: chunk_length)

lemma chunk_nth:
  assumes "0 < p" "j < length xs"
  shows "j div p < page_count (length xs) p"
    and "j mod p < length (chunk xs p (j div p))"
    and "chunk xs p (j div p) ! (j mod p) = xs ! j"
proof -
  from assms(2) have n: "0 < length xs" by (cases xs) simp_all
  have "length xs \<le> page_count (length xs) p * p"
    using assms(1) n by (rule page_count_bounds(1))
  with assms(2) have "j < page_count (length xs) p * p" by linarith
  then show "j div p < page_count (length xs) p"
    using assms(1) by (simp add: less_mult_imp_div_less)
  have e: "j div p * p + j mod p = j" by simp
  have m: "j mod p < p" using assms(1) by simp
  from e assms(2) have "j mod p < length xs - j div p * p" by linarith
  with m show l: "j mod p < length (chunk xs p (j div p))" by (simp add: chunk_length)
  from e assms(2) have le: "j div p * p \<le> length xs" by linarith
  have "take p (drop (j div p * p) xs) ! (j mod p) = drop (j div p * p) xs ! (j mod p)"
    using m by (rule nth_take)
  also have "\<dots> = xs ! (j div p * p + j mod p)"
    using le by (rule nth_drop)
  finally have "chunk xs p (j div p) ! (j mod p) = xs ! (j div p * p + j mod p)"
    unfolding chunk_def .
  then show "chunk xs p (j div p) ! (j mod p) = xs ! j" by (simp only: e)
qed

lemma chunk_member:
  assumes "l \<in> set (chunk xs p i)"
  obtains a where "a < p" "i * p + a < length xs" "xs ! (i * p + a) = l"
proof -
  from assms obtain a where a: "a < length (chunk xs p i)" "chunk xs p i ! a = l"
    by (auto simp: in_set_conv_nth)
  from a(1) have c: "a < p" "a < length xs - i * p" by (simp_all add: chunk_length)
  then have b: "a < p" "i * p + a < length xs" by linarith+
  with a(2) have "xs ! (i * p + a) = l" by (simp add: chunk_def)
  with b show ?thesis by (rule that)
qed

lemma chunk_unique:
  assumes "distinct xs" "0 < p" "l \<in> set xs"
  shows "\<exists>!i. i < page_count (length xs) p \<and> l \<in> set (chunk xs p i)"
proof -
  from assms(3) obtain j where j: "j < length xs" "xs ! j = l"
    by (auto simp: in_set_conv_nth)
  have in_chunk: "l \<in> set (chunk xs p (j div p))"
    using chunk_nth(2,3) [OF assms(2) j(1)] j(2) by (metis nth_mem)
  have uniq: "i = j div p" if "l \<in> set (chunk xs p i)" for i
  proof -
    from that obtain a where a: "a < p" "i * p + a < length xs" "xs ! (i * p + a) = l"
      by (rule chunk_member)
    from a(3) j(2) have "xs ! (i * p + a) = xs ! j" by simp
    with nth_eq_iff_index_eq [OF assms(1) a(2) j(1)] have "i * p + a = j" by blast
    with a(1) show ?thesis by auto
  qed
  show ?thesis
  proof (rule ex1I [of _ "j div p"])
    show "j div p < page_count (length xs) p \<and> l \<in> set (chunk xs p (j div p))"
      using chunk_nth(1) [OF assms(2) j(1)] in_chunk by simp
  next
    fix i assume "i < page_count (length xs) p \<and> l \<in> set (chunk xs p i)"
    then show "i = j div p" using uniq by blast
  qed
qed

lemma concat_all_chunks:
  "0 < p \<Longrightarrow> concat (map (chunk xs p) [0..<page_count (length xs) p]) = xs"
proof -
  assume p: "0 < p"
  show ?thesis
  proof (cases "xs = []")
    case True
    with p show ?thesis by (simp add: page_count_zero)
  next
    case False
    then have "length xs \<le> page_count (length xs) p * p"
      using p by (simp add: page_count_bounds(1))
    then show ?thesis by (simp add: concat_chunks)
  qed
qed

lemma write_jump_entries_text:
  "write_jump_entries f labels = f @ concat (map entry_text labels)"
  by (induction labels arbitrary: f) (simp_all add: entry_text_def file_write_def TAB_def)

lemma write_labels_single:
  "0 < P \<Longrightarrow> int (length labels) \<le> P \<Longrightarrow>
     write_labels_to_file_in_batches f root_label labels go_back_label P =
       emit_pages f [(root_label, labels, go_back_label)]"
  by (simp add: write_labels_to_file_in_batches_def write_jump_menu_to_file_eq)

lemma write_labels_paged:
  assumes "0 < P" "P < int (length labels)"
  shows "write_labels_to_file_in_batches f root_label labels go_back_label P =
       emit_pages f
         (map (\<lambda>i. (sub_page_label root_label i, chunk labels (nat P) i, Some root_label))
            [0..<page_count (length labels) (nat P)]
          @ [(root_label,
              map (sub_page_label root_label) [0..<page_count (length labels) (nat P)],
              go_back_label)])"
proof -
  define k where "k = page_count (length labels) (nat P)"
  from assms have ne: "labels \<noteq> []" by auto
  have b: "batch_labels labels P = map (chunk labels (nat P)) [0..<0 + k]"
    using assms(1) by (simp add: batch_labels_closed k_def)
  have s: "write_submenus f root_label (batch_labels labels P) 0 [] =
     (emit_pages f (map (\<lambda>i. (sub_page_label root_label i, chunk labels (nat P) i, Some root_label)) [0..<0 + k]),
      0 + k, [] @ map (sub_page_label root_label) [0..<0 + k])"
    unfolding b by (rule write_submenus_closed)
  have "write_labels_to_file_in_batches f root_label labels go_back_label P =
      (case write_submenus f root_label (batch_labels labels P) 0 [] of
         (f1, batch_number, batch_top_labels) \<Rightarrow>
           write_jump_menu_to_script_file f1 root_label batch_top_labels go_back_label)"
    using assms ne
    by (simp add: write_labels_to_file_in_batches_def write_jump_menu_to_file_eq
        indexer_write_submenus_eq indexer_batch_labels_eq)
  also have "\<dots> = emit_pages f
         (map (\<lambda>i. (sub_page_label root_label i, chunk labels (nat P) i, Some root_label)) [0..<k]
          @ [(root_label, map (sub_page_label root_label) [0..<k], go_back_label)])"
    unfolding s by (simp add: emit_pages_append)
  finally show ?thesis unfolding k_def .
qed

lemma write_labels_generator_as_indexer:
  "write_labels_to_script_file f labels root_label P =
   write_labels_to_file_in_batches f root_label labels None P"
  by (simp only: write_labels_to_script_file_def write_labels_to_file_in_batches_def
      indexer_write_submenus_eq indexer_batch_labels_eq write_jump_menu_to_file_eq)

lemma write_jump_menu_text:
  "write_jump_menu_to_script_file f top_label labels go_back_label =
     f @ page_text top_label labels go_back_label"
  by (simp add: write_jump_menu_to_script_file_def page_text_def write_jump_entries_text
      file_write_def back_entry_text_def LABEL_def TAB_def Let_def)

lemma emit_pages_text:
  "emit_pages f pages = f @ concat (map (\<lambda>(t, ls, g). page_text t ls g) pages)"
  by (induction pages arbitrary: f) (auto simp: write_jump_menu_text)

lemma write_labels_single_text:
  "0 < P \<Longrightarrow> int (length labels) \<le> P \<Longrightarrow>
     write_labels_to_file_in_batches f root_label labels go_back_label P =
       f @ page_text root_label labels go_back_label"
  by (simp add: write_labels_single emit_pages_text)

lemma write_labels_paged_text:
  assumes "0 < P" "P < int (length labels)"
  shows "write_labels_to_file_in_batches f root_label labels go_back_label P =
       f @ concat (map (\<lambda>i. page_text (sub_page_label root_label i) (chunk labels (nat P) i)
                            (Some root_label))
                     [0..<page_count (length labels) (nat P)])
         @ page_text root_label
             (map (sub_page_label root_label) [0..<page_count (length labels) (nat P)])
             go_back_label"
  unfolding write_labels_paged [OF assms] emit_pages_text
  by (simp add: comp_def)

text \<open>
  Claim C1. For a label list of length \<open>N\<close> and a page size \<open>P > 0\<close>, the menu builder of
  either tool appends to its sink, when \<open>N \<le> P\<close>, the text of exactly one menu page (the
  root page with all the labels); when \<open>N > P\<close>, the texts of exactly \<open>k = \<lceil>N / P\<rceil>\<close>
  sub-pages, in order, followed by the text of one top page that lists the \<open>k\<close> sub-page
  labels. Sub-page \<open>i\<close> is filed under the root label followed by an underscore and
  \<open>i\<close>, has the root label as its go-back label, and holds the labels \<open>i * P\<close> up to
  \<open>(i + 1) * P\<close> of the input, in input order: the sub-pages concatenated are the input,
  every sub-page but the last has \<open>P\<close> labels, the last has between 1 and \<open>P\<close>, the
  label at position \<open>j\<close> is entry \<open>j mod P\<close> of sub-page \<open>j div P\<close>, and when the labels
  are pairwise distinct every label is in exactly one sub-page.
\<close>

theorem menu_tree_pages:
  assumes "0 < P"
  shows
  "(int (length labels) \<le> P \<longrightarrow>
      write_labels_to_script_file f labels root_label P =
        f @ page_text root_label labels None
      \<and> write_labels_to_file_in_batches f root_label labels go_back_label P =
        f @ page_text root_label labels go_back_label)
   \<and> (P < int (length labels) \<longrightarrow>
      write_labels_to_script_file f labels root_label P =
        f @ concat (map (\<lambda>i. page_text (sub_page_label root_label i) (chunk labels (nat P) i)
                             (Some root_label))
                      [0..<page_count (length labels) (nat P)])
          @ page_text root_label
              (map (sub_page_label root_label) [0..<page_count (length labels) (nat P)])
              None
      \<and> write_labels_to_file_in_batches f root_label labels go_back_label P =
        f @ concat (map (\<lambda>i. page_text (sub_page_label root_label i) (chunk labels (nat P) i)
                             (Some root_label))
                      [0..<page_count (length labels) (nat P)])
          @ page_text root_label
              (map (sub_page_label root_label) [0..<page_count (length labels) (nat P)])
              go_back_label
      \<and> (page_count (length labels) (nat P) - 1) * nat P < length labels
      \<and> length labels \<le> page_count (length labels) (nat P) * nat P
      \<and> concat (map (chunk labels (nat P)) [0..<page_count (length labels) (nat P)]) = labels
      \<and> (\<forall>i. i + 1 < page_count (length labels) (nat P) \<longrightarrow>
            length (chunk labels (nat P) i) = nat P)
      \<and> 0 < length (chunk labels (nat P) (page_count (length labels) (nat P) - 1))
      \<and> length (chunk labels (nat P) (page_count (length labels) (nat P) - 1)) \<le> nat P
      \<and> (\<forall>j<length labels.
            j div nat P < page_count (length labels) (nat P)
            \<and> j mod nat P < length (chunk labels (nat P) (j div nat P))
            \<and> chunk labels (nat P) (j div nat P) ! (j mod nat P) = labels ! j)
      \<and> (distinct labels \<longrightarrow>
            (\<forall>l\<in>set labels.
               \<exists>!i. i < page_count (length labels) (nat P) \<and> l \<in> set (chunk labels (nat P) i))))"
proof (intro conjI impI allI ballI)
  assume "int (length labels) \<le> P"
  with assms show "write_labels_to_script_file f labels root_label P =
        f @ page_text root_label labels None"
    by (simp only: write_labels_generator_as_indexer write_labels_single_text)
next
  assume "int (length labels) \<le> P"
  with assms show "write_labels_to_file_in_batches f root_label labels go_back_label P =
        f @ page_text root_label labels go_back_label"
    by (rule write_labels_single_text)
next
  assume "P < int (length labels)"
  with assms show "write_labels_to_script_file f labels root_label P =
        f @ concat (map (\<lambda>i. page_text (sub_page_label root_label i) (chunk labels (nat P) i)
                             (Some root_label))
                      [0..<page_count (length labels) (nat P)])
          @ page_text root_label
              (map (sub_page_label root_label) [0..<page_count (length labels) (nat P)])
              None"
    by (simp only: write_labels_generator_as_indexer write_labels_paged_text)
next
  assume "P < int (length labels)"
  with assms show "write_labels_to_file_in_batches f root_label labels go_back_label P =
        f @ concat (map (\<lambda>i. page_text (sub_page_label root_label i) (chunk labels (nat P) i)
                             (Some root_label))
                      [0..<page_count (length labels) (nat P)])
          @ page_text root_label
              (map (sub_page_label root_label) [0..<page_count (length labels) (nat P)])
              go_back_label"
    by (rule write_labels_paged_text)
next
  assume a: "P < int (length labels)"
  from assms have p: "0 < nat P" by simp
  from a assms have n: "0 < length labels" by (cases labels) simp_all
  from p n show "(page_count (length labels) (nat P) - 1) * nat P < length labels"
    by (rule page_count_bounds(2))
  from p n show "length labels \<le> page_count (length labels) (nat P) * nat P"
    by (rule page_count_bounds(1))
  from p show "concat (map (chunk labels (nat P)) [0..<page_count (length labels) (nat P)]) = labels"
    by (rule concat_all_chunks)
  from p n show "0 < length (chunk labels (nat P) (page_count (length labels) (nat P) - 1))"
    by (rule chunk_last(1))
  from p n show "length (chunk labels (nat P) (page_count (length labels) (nat P) - 1)) \<le> nat P"
    by (rule chunk_last(2))
next
  fix i assume "P < int (length labels)" "i + 1 < page_count (length labels) (nat P)"
  with assms show "length (chunk labels (nat P) i) = nat P"
    by (simp add: chunk_full)
next
  fix j assume j: "j < length labels"
  from assms have p: "0 < nat P" by simp
  from p j show "j div nat P < page_count (length labels) (nat P)" by (rule chunk_nth(1))
  from p j show "j mod nat P < length (chunk labels (nat P) (j div nat P))" by (rule chunk_nth(2))
  from p j show "chunk labels (nat P) (j div nat P) ! (j mod nat P) = labels ! j"
    by (rule chunk_nth(3))
next
  fix l assume d: "distinct labels" and l: "l \<in> set labels"
  from assms have p: "0 < nat P" by simp
  from d p l show "\<exists>!i. i < page_count (length labels) (nat P) \<and> l \<in> set (chunk labels (nat P) i)"
    by (rule chunk_unique)
qed

text \<open>
  Three labels at page size 2: two sub-pages and the top page, as text; and two labels
  at page size 2: the root page alone.
\<close>

theorem menu_tree_pages_witness:
  "(0::int) < 2
   \<and> write_labels_to_script_file ''init:'' [''a'', ''b'', ''c''] ''m'' 2 =
       ''init:''
       @ ''label m_0:'' @ NL @ NL @ ''    menu:'' @ NL
       @ ''        '' @ DQUOTE @ ''< BACK'' @ DQUOTE @ '':'' @ NL @ ''            jump m'' @ NL @ NL
       @ ''        '' @ DQUOTE @ ''a'' @ DQUOTE @ '':'' @ NL @ ''            jump a'' @ NL @ NL
       @ ''        '' @ DQUOTE @ ''b'' @ DQUOTE @ '':'' @ NL @ ''            jump b'' @ NL @ NL
       @ ''label m_1:'' @ NL @ NL @ ''    menu:'' @ NL
       @ ''        '' @ DQUOTE @ ''< BACK'' @ DQUOTE @ '':'' @ NL @ ''            jump m'' @ NL @ NL
       @ ''        '' @ DQUOTE @ ''c'' @ DQUOTE @ '':'' @ NL @ ''            jump c'' @ NL @ NL
       @ ''label m:'' @ NL @ NL @ ''    menu:'' @ NL
       @ ''        '' @ DQUOTE @ ''m_0'' @ DQUOTE @ '':'' @ NL @ ''            jump m_0'' @ NL @ NL
       @ ''        '' @ DQUOTE @ ''m_1'' @ DQUOTE @ '':'' @ NL @ ''            jump m_1'' @ NL @ NL
   \<and> write_labels_to_script_file ''init:'' [''a'', ''b''] ''m'' 2 =
       ''init:''
       @ ''label m:'' @ NL @ NL @ ''    menu:'' @ NL
       @ ''        '' @ DQUOTE @ ''a'' @ DQUOTE @ '':'' @ NL @ ''            jump a'' @ NL @ NL
       @ ''        '' @ DQUOTE @ ''b'' @ DQUOTE @ '':'' @ NL @ ''            jump b'' @ NL @ NL"
proof -
  have h: "(0::int) < 2" by simp
  have g: "(2::int) < int (length [''a'', ''b'', ''c''])" by simp
  have g': "int (length [''a'', ''b'']) \<le> 2" by simp
  have pages:
    "concat (map (\<lambda>i. page_text (sub_page_label ''m'' i) (chunk [''a'', ''b'', ''c''] (nat 2) i)
                          (Some ''m''))
               [0..<page_count (length [''a'', ''b'', ''c'']) (nat 2)])
     @ page_text ''m''
         (map (sub_page_label ''m'') [0..<page_count (length [''a'', ''b'', ''c'']) (nat 2)]) None
     = ''label m_0:'' @ NL @ NL @ ''    menu:'' @ NL
       @ ''        '' @ DQUOTE @ ''< BACK'' @ DQUOTE @ '':'' @ NL @ ''            jump m'' @ NL @ NL
       @ ''        '' @ DQUOTE @ ''a'' @ DQUOTE @ '':'' @ NL @ ''            jump a'' @ NL @ NL
       @ ''        '' @ DQUOTE @ ''b'' @ DQUOTE @ '':'' @ NL @ ''            jump b'' @ NL @ NL
       @ ''label m_1:'' @ NL @ NL @ ''    menu:'' @ NL
       @ ''        '' @ DQUOTE @ ''< BACK'' @ DQUOTE @ '':'' @ NL @ ''            jump m'' @ NL @ NL
       @ ''        '' @ DQUOTE @ ''c'' @ DQUOTE @ '':'' @ NL @ ''            jump c'' @ NL @ NL
       @ ''label m:'' @ NL @ NL @ ''    menu:'' @ NL
       @ ''        '' @ DQUOTE @ ''m_0'' @ DQUOTE @ '':'' @ NL @ ''            jump m_0'' @ NL @ NL
       @ ''        '' @ DQUOTE @ ''m_1'' @ DQUOTE @ '':'' @ NL @ ''            jump m_1'' @ NL @ NL"
    by (simp add: page_count_def upt_rec sub_page_label_def str_nat.simps chunk_def
        page_text_def entry_text_def back_entry_text_def)
  have page:
    "page_text ''m'' [''a'', ''b''] None =
       ''label m:'' @ NL @ NL @ ''    menu:'' @ NL
       @ ''        '' @ DQUOTE @ ''a'' @ DQUOTE @ '':'' @ NL @ ''            jump a'' @ NL @ NL
       @ ''        '' @ DQUOTE @ ''b'' @ DQUOTE @ '':'' @ NL @ ''            jump b'' @ NL @ NL"
    by (simp add: page_text_def entry_text_def)
  from menu_tree_pages [OF h, of "[''a'', ''b'', ''c'']" "''init:''" "''m''" None] g
  have "write_labels_to_script_file ''init:'' [''a'', ''b'', ''c''] ''m'' 2 =
       ''init:'' @
       (concat (map (\<lambda>i. page_text (sub_page_label ''m'' i) (chunk [''a'', ''b'', ''c''] (nat 2) i)
                          (Some ''m''))
               [0..<page_count (length [''a'', ''b'', ''c'']) (nat 2)])
        @ page_text ''m''
         (map (sub_page_label ''m'') [0..<page_count (length [''a'', ''b'', ''c'']) (nat 2)]) None)"
    by (simp only: append_assoc)
  then have a: "write_labels_to_script_file ''init:'' [''a'', ''b'', ''c''] ''m'' 2 =
       ''init:''
       @ ''label m_0:'' @ NL @ NL @ ''    menu:'' @ NL
       @ ''        '' @ DQUOTE @ ''< BACK'' @ DQUOTE @ '':'' @ NL @ ''            jump m'' @ NL @ NL
       @ ''        '' @ DQUOTE @ ''a'' @ DQUOTE @ '':'' @ NL @ ''            jump a'' @ NL @ NL
       @ ''        '' @ DQUOTE @ ''b'' @ DQUOTE @ '':'' @ NL @ ''            jump b'' @ NL @ NL
       @ ''label m_1:'' @ NL @ NL @ ''    menu:'' @ NL
       @ ''        '' @ DQUOTE @ ''< BACK'' @ DQUOTE @ '':'' @ NL @ ''            jump m'' @ NL @ NL
       @ ''        '' @ DQUOTE @ ''c'' @ DQUOTE @ '':'' @ NL @ ''            jump c'' @ NL @ NL
       @ ''label m:'' @ NL @ NL @ ''    menu:'' @ NL
       @ ''        '' @ DQUOTE @ ''m_0'' @ DQUOTE @ '':'' @ NL @ ''            jump m_0'' @ NL @ NL
       @ ''        '' @ DQUOTE @ ''m_1'' @ DQUOTE @ '':'' @ NL @ ''            jump m_1'' @ NL @ NL"
    by (simp only: pages)
  from menu_tree_pages [OF h, of "[''a'', ''b'']" "''init:''" "''m''" None] g'
  have "write_labels_to_script_file ''init:'' [''a'', ''b''] ''m'' 2 =
       ''init:'' @ page_text ''m'' [''a'', ''b''] None"
    by blast
  then have b: "write_labels_to_script_file ''init:'' [''a'', ''b''] ''m'' 2 =
       ''init:''
       @ ''label m:'' @ NL @ NL @ ''    menu:'' @ NL
       @ ''        '' @ DQUOTE @ ''a'' @ DQUOTE @ '':'' @ NL @ ''            jump a'' @ NL @ NL
       @ ''        '' @ DQUOTE @ ''b'' @ DQUOTE @ '':'' @ NL @ ''            jump b'' @ NL @ NL"
    by (simp only: page)
  from h a b show ?thesis by blast
qed

subsection \<open>The worked example: 45 labels, page size 20\<close>

lemma sub_page_text:
  "root_label \<noteq> [] \<Longrightarrow>
     write_jump_menu_to_script_file f top_label labels (Some root_label) =
       f @ ''label '' @ top_label @ '':'' @ NL @ NL @ ''    menu:'' @ NL
         @ back_entry_text root_label @ concat (map entry_text labels)"
  by (simp add: write_jump_menu_to_script_file_def write_jump_entries_text file_write_def
      back_entry_text_def LABEL_def TAB_def Let_def)

lemma top_page_text:
  "labels \<noteq> [] \<Longrightarrow>
     write_jump_menu_to_script_file f top_label labels None =
       f @ ''label '' @ top_label @ '':'' @ NL @ NL @ ''    menu:'' @ NL
         @ concat (map entry_text labels)"
  by (simp add: write_jump_menu_to_script_file_def write_jump_entries_text file_write_def
      LABEL_def TAB_def Let_def)

lemma page_count_45_20: "page_count 45 20 = 3"
  by (simp add: page_count_def)

lemma upt_3: "[0..<3] = [0, 1, 2]"
  by (simp add: upt_rec)

lemma sub_page_labels_012:
  "sub_page_label r 0 = r @ ''_0''" "sub_page_label r 1 = r @ ''_1''"
  "sub_page_label r 2 = r @ ''_2''"
  by (simp_all add: sub_page_label_def str_nat.simps)


lemma pages_45_20:
  assumes "length labels = 45"
  shows "write_labels_to_script_file f labels root_label 20 =
      emit_pages f
        [(root_label @ ''_0'', take 20 labels, Some root_label),
         (root_label @ ''_1'', take 20 (drop 20 labels), Some root_label),
         (root_label @ ''_2'', drop 40 labels, Some root_label),
         (root_label, [root_label @ ''_0'', root_label @ ''_1'', root_label @ ''_2''], None)]"
proof -
  have P: "(0::int) < 20" by simp
  have N: "(20::int) < int (length labels)" using assms by simp
  have n: "nat 20 = 20" by simp
  have c2: "chunk labels 20 2 = drop 40 labels" using assms by (simp add: chunk_def)
  have c1: "chunk labels 20 1 = take 20 (drop 20 labels)" by (simp add: chunk_def)
  have c0: "chunk labels 20 0 = take 20 labels" by (simp add: chunk_def)
  have "write_labels_to_script_file f labels root_label 20 =
       emit_pages f
         (map (\<lambda>i. (sub_page_label root_label i, chunk labels (nat 20) i, Some root_label))
            [0..<page_count (length labels) (nat 20)]
          @ [(root_label,
              map (sub_page_label root_label) [0..<page_count (length labels) (nat 20)],
              None)])"
    unfolding write_labels_generator_as_indexer using P N by (rule write_labels_paged)
  also have "map (\<lambda>i. (sub_page_label root_label i, chunk labels (nat 20) i, Some root_label))
            [0..<page_count (length labels) (nat 20)]
          @ [(root_label,
              map (sub_page_label root_label) [0..<page_count (length labels) (nat 20)],
              None)] =
        [(root_label @ ''_0'', take 20 labels, Some root_label),
         (root_label @ ''_1'', take 20 (drop 20 labels), Some root_label),
         (root_label @ ''_2'', drop 40 labels, Some root_label),
         (root_label, [root_label @ ''_0'', root_label @ ''_1'', root_label @ ''_2''], None)]"
    unfolding assms n page_count_45_20 upt_3
    by (simp only: list.map append_Cons append_Nil sub_page_labels_012 c0 c1 c2)
  finally show ?thesis .
qed


text \<open>
  Claim C7. Given 45 labels and page size 20, the menu builder writes three sub-pages,
  labelled root_0, root_1 and root_2 and holding the first 20, the next 20 and the last
  5 labels, and then one top page under the root label listing the three sub-page
  labels. Each sub-page (the third as well as the first two) is written with the root
  label, the label of the top page, as its go-back label; for a non-empty root label
  its menu starts with the back entry jumping to the root label. The top page has no
  back entry.
\<close>

theorem menu_45_labels_page_20:
  assumes "length labels = 45"
  shows
  "write_labels_to_script_file f labels root_label 20 =
      emit_pages f
        [(root_label @ ''_0'', take 20 labels, Some root_label),
         (root_label @ ''_1'', take 20 (drop 20 labels), Some root_label),
         (root_label @ ''_2'', drop 40 labels, Some root_label),
         (root_label, [root_label @ ''_0'', root_label @ ''_1'', root_label @ ''_2''], None)]
   \<and> length (take 20 labels) = 20
   \<and> length (take 20 (drop 20 labels)) = 20
   \<and> length (drop 40 labels) = 5
   \<and> take 20 labels @ take 20 (drop 20 labels) @ drop 40 labels = labels
   \<and> (root_label \<noteq> [] \<longrightarrow>
        write_labels_to_script_file f labels root_label 20 =
          f @ ''label '' @ root_label @ ''_0:'' @ NL @ NL @ ''    menu:'' @ NL
            @ back_entry_text root_label @ concat (map entry_text (take 20 labels))
            @ ''label '' @ root_label @ ''_1:'' @ NL @ NL @ ''    menu:'' @ NL
            @ back_entry_text root_label @ concat (map entry_text (take 20 (drop 20 labels)))
            @ ''label '' @ root_label @ ''_2:'' @ NL @ NL @ ''    menu:'' @ NL
            @ back_entry_text root_label @ concat (map entry_text (drop 40 labels))
            @ ''label '' @ root_label @ '':'' @ NL @ NL @ ''    menu:'' @ NL
            @ entry_text (root_label @ ''_0'') @ entry_text (root_label @ ''_1'')
            @ entry_text (root_label @ ''_2''))"
proof (intro conjI impI)
  show "write_labels_to_script_file f labels root_label 20 =
      emit_pages f
        [(root_label @ ''_0'', take 20 labels, Some root_label),
         (root_label @ ''_1'', take 20 (drop 20 labels), Some root_label),
         (root_label @ ''_2'', drop 40 labels, Some root_label),
         (root_label, [root_label @ ''_0'', root_label @ ''_1'', root_label @ ''_2''], None)]"
    using assms by (rule pages_45_20)
  show "length (take 20 labels) = 20" using assms by simp
  show "length (take 20 (drop 20 labels)) = 20" using assms by simp
  show "length (drop 40 labels) = 5" using assms by simp
  have "take 20 (drop 20 labels) @ drop 40 labels = drop 20 labels"
    using append_take_drop_id [of 20 "drop 20 labels"] by simp
  then show "take 20 labels @ take 20 (drop 20 labels) @ drop 40 labels = labels"
    by simp
next
  assume r: "root_label \<noteq> []"
  show "write_labels_to_script_file f labels root_label 20 =
          f @ ''label '' @ root_label @ ''_0:'' @ NL @ NL @ ''    menu:'' @ NL
            @ back_entry_text root_label @ concat (map entry_text (take 20 labels))
            @ ''label '' @ root_label @ ''_1:'' @ NL @ NL @ ''    menu:'' @ NL
            @ back_entry_text root_label @ concat (map entry_text (take 20 (drop 20 labels)))
            @ ''label '' @ root_label @ ''_2:'' @ NL @ NL @ ''    menu:'' @ NL
            @ back_entry_text root_label @ concat (map entry_text (drop 40 labels))
            @ ''label '' @ root_label @ '':'' @ NL @ NL @ ''    menu:'' @ NL
            @ entry_text (root_label @ ''_0'') @ entry_text (root_label @ ''_1'')
            @ entry_text (root_label @ ''_2'')"
    unfolding pages_45_20 [OF assms]
    by (simp add: sub_page_text [OF r] top_page_text)
qed

theorem menu_45_labels_page_20_witness:
  "length (replicate 45 ''scene'') = 45
   \<and> write_labels_to_script_file [] (replicate 45 ''scene'') ''main'' 20 =
      emit_pages []
        [(''main_0'', replicate 20 ''scene'', Some ''main''),
         (''main_1'', replicate 20 ''scene'', Some ''main''),
         (''main_2'', replicate 5 ''scene'', Some ''main''),
         (''main'', [''main_0'', ''main_1'', ''main_2''], None)]"
proof -
  have h: "length (replicate 45 ''scene'') = 45" by simp
  from menu_45_labels_page_20 [OF h, of "[]" "''main''"] h show ?thesis by simp
qed


subsection \<open>The character map\<close>

lemma set_first_seen: "set (first_seen xs) = set xs"
  by (induction xs rule: first_seen.induct) auto

lemma distinct_first_seen: "distinct (first_seen xs)"
  by (induction xs rule: first_seen.induct) (auto simp: set_first_seen)

lemma assigned_map_Nil: "assigned_map m [] = m"
  by (simp add: assigned_map_def new_speakers_def)

lemma assigned_map_skip:
  "\<not> truthy (character_name line) \<Longrightarrow> assigned_map m (Some line # rest) = assigned_map m rest"
  by (simp add: assigned_map_def new_speakers_def)

lemma assigned_map_None: "assigned_map m (None # rest) = assigned_map m rest"
  by (simp add: assigned_map_def new_speakers_def)

lemma assigned_map_known:
  "truthy (character_name line) \<Longrightarrow> map_of m (the (character_name line)) = Some v \<Longrightarrow>
     assigned_map m (Some line # rest) = assigned_map m rest"
  by (simp add: assigned_map_def new_speakers_def)

lemma assigned_map_new:
  assumes "truthy (character_name line)" "map_of m (the (character_name line)) = None"
  shows "assigned_map m (Some line # rest) =
     assigned_map (m @ [(the (character_name line), ''ch_'' @ str_nat (length m))]) rest"
proof -
  define n where "n = the (character_name line)"
  define m1 where "m1 = m @ [(n, ''ch_'' @ str_nat (length m))]"
  have P: "(map_of m1 x = None) = (map_of m x = None \<and> x \<noteq> n)" for x
    by (auto simp: m1_def map_add_def split: option.splits)
  have ns: "new_speakers m (Some line # rest) = n # new_speakers m1 rest"
    using assms by (simp add: new_speakers_def P conj_commute n_def [symmetric])
  have u: "[0..<Suc k] = 0 # map Suc [0..<k]" for k
    by (simp add: upt_conv_Cons map_Suc_upt del: upt_Suc)
  show ?thesis
    unfolding n_def [symmetric] m1_def [symmetric]
    unfolding assigned_map_def ns
    by (simp add: u m1_def comp_def del: upt_Suc)
qed


lemma assigned_map_stable:
  "map_of m n = Some v \<Longrightarrow> map_of (assigned_map m lines) n = Some v"
  by (simp add: assigned_map_def map_add_def)

lemma line_text_plain:
  "\<not> truthy (character_name line) \<Longrightarrow>
     line_text m (Some line) = TAB @ DQUOTE @ phrase line @ DQUOTE @ NL"
  by (simp add: line_text_def TAB_def)

lemma line_text_id:
  "truthy (character_name line) \<Longrightarrow> map_of m (the (character_name line)) = Some v \<Longrightarrow>
     line_text m (Some line) =
       TAB @ (if v \<noteq> [] then v @ '' '' @ DQUOTE @ phrase line @ DQUOTE
              else DQUOTE @ phrase line @ DQUOTE) @ NL"
  by (simp add: line_text_def TAB_def)

lemma write_lines_loop_closed:
  "write_lines_loop f lines m c =
     (f @ concat (map (line_text (assigned_map m lines)) lines), assigned_map m lines,
      c + length (filter (\<lambda>l. l \<noteq> None) lines))"
proof (induction lines arbitrary: f m c)
  case Nil
  show ?case by (simp add: assigned_map_Nil)
next
  case (Cons l rest)
  show ?case
  proof (cases l)
    case None
    with Cons.IH show ?thesis by (simp add: assigned_map_None line_text_def)
  next
    case (Some line)
    show ?thesis
    proof (cases "truthy (character_name line)")
      case False
      then show ?thesis
        unfolding Some
        by (simp add: Cons.IH assigned_map_skip line_text_plain file_write_def)
    next
      case True
      show ?thesis
      proof (cases "map_of m (the (character_name line))")
        case (Some v)
        have t: "line_text (assigned_map m rest) (Some line) =
            TAB @ (if v \<noteq> [] then v @ '' '' @ DQUOTE @ phrase line @ DQUOTE
              else DQUOTE @ phrase line @ DQUOTE) @ NL"
          using True assigned_map_stable [OF Some] by (rule line_text_id)
        show ?thesis
          unfolding \<open>l = Some line\<close>
          using True Some
          by (simp add: Cons.IH assigned_map_known t dict_setdefault_def file_write_def)
      next
        case None
        define m1 where "m1 = m @ [(the (character_name line), ''ch_'' @ str_nat (length m))]"
        have s: "map_of m1 (the (character_name line)) = Some (''ch_'' @ str_nat (length m))"
          using None by (simp add: m1_def map_add_def)
        have t: "line_text (assigned_map m1 rest) (Some line) =
            TAB @ (''ch_'' @ str_nat (length m)) @ '' '' @ DQUOTE @ phrase line @ DQUOTE @ NL"
          using line_text_id [OF True assigned_map_stable [OF s]] by simp
        have a: "assigned_map m (Some line # rest) = assigned_map m1 rest"
          unfolding m1_def using True None by (rule assigned_map_new)
        have step: "write_lines_loop f (Some line # rest) m c =
            write_lines_loop
              (f @ TAB @ (''ch_'' @ str_nat (length m)) @ '' '' @ DQUOTE @ phrase line @ DQUOTE @ NL)
              rest m1 (c + 1)"
          using True None by (simp add: dict_setdefault_def file_write_def m1_def)
        show ?thesis
          unfolding \<open>l = Some line\<close> a step
          by (simp add: Cons.IH t)
      qed
    qed
  qed
qed


lemma new_speakers_set:
  "set (new_speakers m lines) = {n \<in> set (speakers lines). map_of m n = None}"
  by (simp add: new_speakers_def set_first_seen)

lemma new_speakers_distinct: "distinct (new_speakers m lines)"
  by (simp add: new_speakers_def distinct_first_seen)

lemma assigned_map_new_id:
  assumes "i < length (new_speakers m lines)"
  shows "map_of (assigned_map m lines) (new_speakers m lines ! i) =
           Some (''ch_'' @ str_nat (length m + i))"
proof -
  define news where "news = new_speakers m lines"
  define ids where "ids = map (\<lambda>i. ''ch_'' @ str_nat (length m + i)) [0..<length news]"
  have len: "length news = length ids" by (simp add: ids_def)
  have i: "i < length ids" using assms by (simp add: ids_def news_def)
  have "news ! i \<in> set (new_speakers m lines)" using assms by (simp add: news_def)
  then have none: "map_of m (news ! i) = None" by (simp add: new_speakers_set)
  have "map_of (zip news ids) (news ! i) = Some (ids ! i)"
    using len new_speakers_distinct [of m lines, folded news_def] i by (rule map_of_zip_nth)
  moreover have "ids ! i = ''ch_'' @ str_nat (length m + i)"
    using i by (simp add: ids_def)
  ultimately show ?thesis
    using none unfolding assigned_map_def news_def [symmetric] ids_def [symmetric]
    by (simp add: map_add_def)
qed

lemma assigned_map_total:
  assumes "n \<in> set (speakers lines)"
  shows "map_of (assigned_map m lines) n \<noteq> None"
proof (cases "map_of m n")
  case (Some v)
  then show ?thesis by (simp add: assigned_map_stable)
next
  case None
  with assms have "n \<in> set (new_speakers m lines)" by (simp add: new_speakers_set)
  then obtain i where "i < length (new_speakers m lines)" "new_speakers m lines ! i = n"
    by (auto simp: in_set_conv_nth)
  then show ?thesis using assigned_map_new_id [of i m lines] by simp
qed

lemma assigned_map_distinct:
  assumes "distinct (map fst m)"
  shows "distinct (map fst (assigned_map m lines))"
proof -
  have k: "map fst (assigned_map m lines) = map fst m @ new_speakers m lines"
    by (simp add: assigned_map_def)
  have "set (map fst m) \<inter> set (new_speakers m lines) = {}"
    by (auto simp: new_speakers_set map_of_eq_None_iff)
  with assms new_speakers_distinct [of m lines] show ?thesis
    unfolding k by simp
qed

lemma assigned_map_append:
  "assigned_map m (xs @ ys) = assigned_map (assigned_map m xs) ys"
proof (induction xs arbitrary: m)
  case Nil
  show ?case by (simp add: assigned_map_Nil)
next
  case (Cons l rest)
  show ?case
  proof (cases l)
    case None
    then show ?thesis by (simp add: assigned_map_None Cons.IH)
  next
    case (Some line)
    show ?thesis
    proof (cases "truthy (character_name line)")
      case False
      then show ?thesis unfolding Some by (simp add: assigned_map_skip Cons.IH)
    next
      case True
      show ?thesis
      proof (cases "map_of m (the (character_name line))")
        case (Some v)
        with True show ?thesis
          unfolding \<open>l = Some line\<close> by (simp add: assigned_map_known Cons.IH)
      next
        case None
        with True show ?thesis
          unfolding \<open>l = Some line\<close> by (simp add: assigned_map_new Cons.IH)
      qed
    qed
  qed
qed


text \<open>
  Claim C8. \<^verbatim>\<open>write_lines_to_script_file\<close> leaves the character map as the map it was
  given followed by one entry per new speaker, in the order of the speakers' first
  lines, the \<open>i\<close>-th new speaker getting the identifier \<^verbatim>\<open>ch_\<close> with the number of
  entries the map had when the speaker was first seen. An entry of the map is never
  changed: a speaker already in the map keeps the identifier, whatever lines follow, and
  the statement written for every line carries the identifier the final map holds for
  its speaker, so all lines of one speaker carry the same identifier.
\<close>

theorem character_ids_first_seen:
  "write_lines_to_script_file f lines m =
      (f @ concat (map (line_text (assigned_map m lines)) lines), assigned_map m lines,
       length (filter (\<lambda>l. l \<noteq> None) lines))
   \<and> distinct (new_speakers m lines)
   \<and> set (new_speakers m lines) = {n \<in> set (speakers lines). map_of m n = None}
   \<and> (\<forall>n v. map_of m n = Some v \<longrightarrow> map_of (assigned_map m lines) n = Some v)
   \<and> (\<forall>i<length (new_speakers m lines).
         map_of (assigned_map m lines) (new_speakers m lines ! i) =
           Some (''ch_'' @ str_nat (length m + i)))
   \<and> (\<forall>n\<in>set (speakers lines). map_of (assigned_map m lines) n \<noteq> None)
   \<and> (distinct (map fst m) \<longrightarrow> distinct (map fst (assigned_map m lines)))
   \<and> (\<forall>xs ys. lines = xs @ ys \<longrightarrow>
         (\<exists>ext. assigned_map m lines = assigned_map m xs @ ext)
         \<and> (\<forall>n\<in>set (speakers xs).
               map_of (assigned_map m lines) n = map_of (assigned_map m xs) n))"
proof (intro conjI allI impI ballI)
  show "write_lines_to_script_file f lines m =
      (f @ concat (map (line_text (assigned_map m lines)) lines), assigned_map m lines,
       length (filter (\<lambda>l. l \<noteq> None) lines))"
    by (simp add: write_lines_to_script_file_def write_lines_loop_closed assigned_map_Nil)
  show "distinct (new_speakers m lines)" by (rule new_speakers_distinct)
  show "set (new_speakers m lines) = {n \<in> set (speakers lines). map_of m n = None}"
    by (rule new_speakers_set)
next
  fix n v assume "map_of m n = Some v"
  then show "map_of (assigned_map m lines) n = Some v" by (rule assigned_map_stable)
next
  fix i assume "i < length (new_speakers m lines)"
  then show "map_of (assigned_map m lines) (new_speakers m lines ! i) =
           Some (''ch_'' @ str_nat (length m + i))"
    by (rule assigned_map_new_id)
next
  fix n assume "n \<in> set (speakers lines)"
  then show "map_of (assigned_map m lines) n \<noteq> None" by (rule assigned_map_total)
next
  assume "distinct (map fst m)"
  then show "distinct (map fst (assigned_map m lines))" by (rule assigned_map_distinct)
next
  fix xs ys assume l: "lines = xs @ ys"
  have "assigned_map m lines = assigned_map (assigned_map m xs) ys"
    unfolding l by (rule assigned_map_append)
  then show "\<exists>ext. assigned_map m lines = assigned_map m xs @ ext"
    by (simp add: assigned_map_def [of "assigned_map m xs"])
next
  fix xs ys n assume l: "lines = xs @ ys" and n: "n \<in> set (speakers xs)"
  from n obtain v where v: "map_of (assigned_map m xs) n = Some v"
    using assigned_map_total [of n xs m] by auto
  have "map_of (assigned_map (assigned_map m xs) ys) n = Some v"
    using v by (rule assigned_map_stable)
  with v show "map_of (assigned_map m lines) n = map_of (assigned_map m xs) n"
    unfolding l by (simp add: assigned_map_append)
qed

theorem character_ids_first_seen_witness:
  "write_lines_to_script_file []
     [Some \<lparr>character_name = Some ''Bob'', phrase = ''hi''\<rparr>, None,
      Some \<lparr>character_name = None, phrase = ''x''\<rparr>,
      Some \<lparr>character_name = Some ''Al'', phrase = ''yo''\<rparr>,
      Some \<lparr>character_name = Some ''Bob'', phrase = ''again''\<rparr>]
     [(''Zed'', ''z'')] =
   (''    ch_1 '' @ DQUOTE @ ''hi'' @ DQUOTE @ NL @ ''    '' @ DQUOTE @ ''x'' @ DQUOTE @ NL
      @ ''    ch_2 '' @ DQUOTE @ ''yo'' @ DQUOTE @ NL
      @ ''    ch_1 '' @ DQUOTE @ ''again'' @ DQUOTE @ NL,
    [(''Zed'', ''z''), (''Bob'', ''ch_1''), (''Al'', ''ch_2'')], 4)"
proof -
  define lines where "lines =
     [Some \<lparr>character_name = Some ''Bob'', phrase = ''hi''\<rparr>, None,
      Some \<lparr>character_name = None, phrase = ''x''\<rparr>,
      Some \<lparr>character_name = Some ''Al'', phrase = ''yo''\<rparr>,
      Some \<lparr>character_name = Some ''Bob'', phrase = ''again''\<rparr>]"
  have am: "assigned_map [(''Zed'', ''z'')] lines =
      [(''Zed'', ''z''), (''Bob'', ''ch_1''), (''Al'', ''ch_2'')]"
    unfolding lines_def by code_simp
  have tx: "concat (map (line_text [(''Zed'', ''z''), (''Bob'', ''ch_1''), (''Al'', ''ch_2'')]) lines) =
      ''    ch_1 '' @ DQUOTE @ ''hi'' @ DQUOTE @ NL @ ''    '' @ DQUOTE @ ''x'' @ DQUOTE @ NL
      @ ''    ch_2 '' @ DQUOTE @ ''yo'' @ DQUOTE @ NL
      @ ''    ch_1 '' @ DQUOTE @ ''again'' @ DQUOTE @ NL"
    unfolding lines_def by code_simp
  have ct: "length (filter (\<lambda>l. l \<noteq> None) lines) = 4"
    unfolding lines_def by simp
  from character_ids_first_seen [of "[]" lines "[(''Zed'', ''z'')]"]
  have "write_lines_to_script_file [] lines [(''Zed'', ''z'')] =
      ([] @ concat (map (line_text (assigned_map [(''Zed'', ''z'')] lines)) lines),
       assigned_map [(''Zed'', ''z'')] lines, length (filter (\<lambda>l. l \<noteq> None) lines))"
    by blast
  then have "write_lines_to_script_file [] lines [(''Zed'', ''z'')] =
   (''    ch_1 '' @ DQUOTE @ ''hi'' @ DQUOTE @ NL @ ''    '' @ DQUOTE @ ''x'' @ DQUOTE @ NL
      @ ''    ch_2 '' @ DQUOTE @ ''yo'' @ DQUOTE @ NL
      @ ''    ch_1 '' @ DQUOTE @ ''again'' @ DQUOTE @ NL,
    [(''Zed'', ''z''), (''Bob'', ''ch_1''), (''Al'', ''ch_2'')], 4)"
    by (simp only: am tx ct append_Nil)
  then show ?thesis
    unfolding lines_def .
qed

end
